theory Spec2Isabelle
  imports Main "HOL-Library.Word"
begin

unbundle bit_operations_syntax

section \<open>The AHCI driver of HydrOS (src/drivers/ahci.c)\<close>

subsection \<open>Memory, register accesses and the console\<close>

text \<open>
  The driver works on raw addresses: the adapter's register block, the port register
  blocks inside it and the command headers are all reached through pointers, and
  \<^verbatim>\<open>memset\<close> is applied to the address of a register field. The model therefore keeps
  one byte-addressed store. Words are stored little-endian (the kernel is x86-64).
\<close>

type_synonym addr = "64 word"
type_synonym memory = "addr \<Rightarrow> 8 word"

definition read32 :: "memory \<Rightarrow> addr \<Rightarrow> 32 word" where
  "read32 m a =
     ucast (m a) OR push_bit 8 (ucast (m (a + 1))) OR
     push_bit 16 (ucast (m (a + 2))) OR push_bit 24 (ucast (m (a + 3)))"

definition write32 :: "memory \<Rightarrow> addr \<Rightarrow> 32 word \<Rightarrow> memory" where
  "write32 m a v =
     (\<lambda>x. if x = a then ucast v
          else if x = a + 1 then ucast (drop_bit 8 v)
          else if x = a + 2 then ucast (drop_bit 16 v)
          else if x = a + 3 then ucast (drop_bit 24 v)
          else m x)"

definition write16 :: "memory \<Rightarrow> addr \<Rightarrow> 16 word \<Rightarrow> memory" where
  "write16 m a v =
     (\<lambda>x. if x = a then ucast v
          else if x = a + 1 then ucast (drop_bit 8 v)
          else m x)"

text \<open>
  Modelled from the spec: \<^verbatim>\<open>memset\<close> comes from string/string.h, which is not among the
  sources. The spec's "zero the 1 KiB region at that address" is a fill of \<open>n\<close> bytes
  starting at \<open>a\<close>; the size is a 64-bit \<^verbatim>\<open>size_t\<close> and addresses wrap around at 64 bits.
\<close>

definition memset :: "memory \<Rightarrow> addr \<Rightarrow> 8 word \<Rightarrow> 64 word \<Rightarrow> memory" where
  "memset m a c n = (\<lambda>x. if x - a < n then c else m x)"

text \<open>
  Every access the driver makes is recorded, oldest first, so that one can state which
  registers are read or written, and in which order.
\<close>

datatype access =
    Load32 addr "32 word"
  | Store32 addr "32 word"
  | Store16 addr "16 word"
  | Fill addr "8 word" "64 word"

record machine =
  mem :: memory
  bus :: "access list"
  console :: "string list"

definition ld32 :: "addr \<Rightarrow> machine \<Rightarrow> 32 word \<times> machine" where
  "ld32 a s = (read32 (mem s) a, s\<lparr>bus := bus s @ [Load32 a (read32 (mem s) a)]\<rparr>)"

definition st32 :: "addr \<Rightarrow> 32 word \<Rightarrow> machine \<Rightarrow> machine" where
  "st32 a v s = s\<lparr>mem := write32 (mem s) a v, bus := bus s @ [Store32 a v]\<rparr>"

definition st16 :: "addr \<Rightarrow> 16 word \<Rightarrow> machine \<Rightarrow> machine" where
  "st16 a v s = s\<lparr>mem := write16 (mem s) a v, bus := bus s @ [Store16 a v]\<rparr>"

definition fill :: "addr \<Rightarrow> 8 word \<Rightarrow> 64 word \<Rightarrow> machine \<Rightarrow> machine" where
  "fill a c n s = s\<lparr>mem := memset (mem s) a c n, bus := bus s @ [Fill a c n]\<rparr>"

text \<open>
  Modelled from the spec: \<^verbatim>\<open>kprintf\<close> is the external message sink. A call appends one
  entry to the console; the only conversion the driver uses, \<^verbatim>\<open>%u\<close>, prints its argument
  in decimal.
\<close>

fun decimal :: "nat \<Rightarrow> string" where
  "decimal n =
     (if n < 10 then [''0123456789'' ! n]
      else decimal (n div 10) @ [''0123456789'' ! (n mod 10)])"

fun format_u :: "string \<Rightarrow> nat \<Rightarrow> string" where
  "format_u [] n = []"
| "format_u [c] n = [c]"
| "format_u (c # d # cs) n =
     (if c = CHR ''%'' \<and> d = CHR ''u'' then decimal n @ format_u cs n
      else c # format_u (d # cs) n)"

declare decimal.simps [simp del]

definition kprintf :: "string \<Rightarrow> nat \<Rightarrow> machine \<Rightarrow> machine" where
  "kprintf fmt n s = s\<lparr>console := console s @ [format_u fmt n]\<rparr>"

subsection \<open>Register layout\<close>

text \<open>
  The structs \<^verbatim>\<open>hba_mem_t\<close>, \<^verbatim>\<open>hba_port_t\<close> and \<^verbatim>\<open>hba_cmd_header_t\<close> are declared in
  drivers/ahci.h, which is not among the sources. The functions below take the byte
  offsets of the fields they touch as a parameter.
\<close>

record layout =
  pi_off :: addr
  ports_off :: addr
  port_size :: addr
  clb_off :: addr
  clbu_off :: addr
  fb_off :: addr
  fbu_off :: addr
  cmd_off :: addr
  sig_off :: addr
  ssts_off :: addr
  hdr_size :: addr
  prdtl_off :: addr
  ctba_off :: addr
  ctbau_off :: addr

text \<open>
  The register map of the AHCI specification, which the header mirrors: the ports
  start at 0x100 and take 0x80 bytes each; a command header takes 32 bytes. It is the
  layout used wherever the driver is run on a concrete machine below.
\<close>

definition ahci_map :: layout where
  "ahci_map = \<lparr>pi_off = 0x0C, ports_off = 0x100, port_size = 0x80,
     clb_off = 0x00, clbu_off = 0x04, fb_off = 0x08, fbu_off = 0x0C,
     cmd_off = 0x18, sig_off = 0x24, ssts_off = 0x28,
     hdr_size = 0x20, prdtl_off = 0x02, ctba_off = 0x08, ctbau_off = 0x0C\<rparr>"

text \<open>\<^verbatim>\<open>&hba_addr->ports[i]\<close>\<close>

definition port_ptr :: "layout \<Rightarrow> addr \<Rightarrow> 8 word \<Rightarrow> addr" where
  "port_ptr L hba i = hba + ports_off L + port_size L * ucast i"

subsection \<open>Constants\<close>

definition SATA_SIG_ATA :: "32 word" where "SATA_SIG_ATA = 0x00000101"
definition SATA_SIG_ATAPI :: "32 word" where "SATA_SIG_ATAPI = 0xEB140101"
definition SATA_SIG_SEMB :: "32 word" where "SATA_SIG_SEMB = 0xC33C0101"
definition SATA_SIG_PM :: "32 word" where "SATA_SIG_PM = 0x96690101"

definition AHCI_DEV_NULL :: int where "AHCI_DEV_NULL = 0"
definition AHCI_DEV_SATA :: int where "AHCI_DEV_SATA = 1"
definition AHCI_DEV_SEMB :: int where "AHCI_DEV_SEMB = 2"
definition AHCI_DEV_PM :: int where "AHCI_DEV_PM = 3"
definition AHCI_DEV_SATAPI :: int where "AHCI_DEV_SATAPI = 4"

definition HBA_PORT_IPM_ACTIVE :: "8 word" where "HBA_PORT_IPM_ACTIVE = 1"
definition HBA_PORT_DET_PRESENT :: "8 word" where "HBA_PORT_DET_PRESENT = 3"

definition AHCI_BASE :: "32 word" where "AHCI_BASE = 0x400000"

subsection \<open>check_type\<close>

definition check_type :: "layout \<Rightarrow> addr \<Rightarrow> machine \<Rightarrow> int \<times> machine" where
  "check_type L port s =
     (let (ssts, s1) = ld32 (port + ssts_off L) s;
          ipm = (ucast (drop_bit 8 ssts AND 0x0F) :: 8 word);
          det = (ucast (ssts AND 0x0F) :: 8 word)
      in if det \<noteq> HBA_PORT_DET_PRESENT then (AHCI_DEV_NULL, s1)
         else if ipm \<noteq> HBA_PORT_IPM_ACTIVE then (AHCI_DEV_NULL, s1)
         else
           (let (sig, s2) = ld32 (port + sig_off L) s1
            in if sig = SATA_SIG_ATAPI then (AHCI_DEV_SATAPI, s2)
               else if sig = SATA_SIG_SEMB then (AHCI_DEV_SEMB, s2)
               else if sig = SATA_SIG_PM then (AHCI_DEV_PM, s2)
               else (AHCI_DEV_SATA, s2)))"

subsection \<open>probe_port\<close>

text \<open>The body of the \<^verbatim>\<open>if (pi & 1)\<close> branch for port \<open>i\<close>.\<close>

definition report :: "layout \<Rightarrow> addr \<Rightarrow> 8 word \<Rightarrow> machine \<Rightarrow> machine" where
  "report L hba i s =
     (let (dt, s1) = check_type L (port_ptr L hba i) s
      in if dt = AHCI_DEV_SATA then
           kprintf ''[AHCI] SATA drive found, port = %u\<newline>'' (unat i) s1
         else if dt = AHCI_DEV_SATAPI then
           kprintf ''[AHCI] SATAPI drive found, port = %u\<newline>'' (unat i) s1
         else if dt = AHCI_DEV_SEMB then
           kprintf ''[AHCI] SEMB drive found, port = %u\<newline>'' (unat i) s1
         else if dt = AHCI_DEV_PM then
           kprintf ''[AHCI] PM drive found, port = %u\<newline>'' (unat i) s1
         else s1)"

function probe_loop :: "layout \<Rightarrow> addr \<Rightarrow> 8 word \<Rightarrow> 32 word \<Rightarrow> machine \<Rightarrow> machine" where
  "probe_loop L hba i pi s =
     (if i < 32 then
        probe_loop L hba (i + 1) (drop_bit 1 pi)
          (if pi AND 1 \<noteq> 0 then report L hba i s else s)
      else s)"
  by pat_completeness auto
termination
proof (relation "measure (\<lambda>(L, hba, i, pi, s). 32 - unat i)")
  show "wf (measure (\<lambda>(L, hba, i, pi, s). 32 - unat i))"
    by simp
next
  fix L :: layout and hba :: addr and i :: "8 word" and pi :: "32 word" and s :: machine
  assume "i < 32"
  then have "unat i < 32"
    by (simp add: word_less_nat_alt)
  then have "unat (i + 1) = unat i + 1"
    by (simp add: unat_word_ariths)
  with \<open>unat i < 32\<close>
  show "((L, hba, i + 1, drop_bit 1 pi, if pi AND 1 \<noteq> 0 then report L hba i s else s),
         (L, hba, i, pi, s)) \<in> measure (\<lambda>(L, hba, i, pi, s). 32 - unat i)"
    by simp
qed

declare probe_loop.simps [simp del]

definition probe_port :: "layout \<Rightarrow> addr \<Rightarrow> machine \<Rightarrow> machine" where
  "probe_port L hba s =
     (let (pi, s0) = ld32 (hba + pi_off L) s
      in probe_loop L hba 0 pi s0)"

subsection \<open>start_cmd and stop_cmd\<close>

text \<open>
  The command register \<^verbatim>\<open>port->cmd\<close> holds status bits that the adapter changes on its
  own (FR, bit 14, and CR, bit 15). The adapter is a parameter \<open>dev\<close>: a transformer of
  the store that runs before every load of \<^verbatim>\<open>port->cmd\<close>. With \<open>dev = id\<close> the register
  behaves like ordinary memory. The busy-wait loops may run forever, so they are
  partial functions: \<open>None\<close> means that the loop never exits.
\<close>

definition ld_cmd :: "(memory \<Rightarrow> memory) \<Rightarrow> layout \<Rightarrow> addr \<Rightarrow> machine \<Rightarrow> 32 word \<times> machine" where
  "ld_cmd dev L port s = ld32 (port + cmd_off L) (s\<lparr>mem := dev (mem s)\<rparr>)"

text \<open>\<^verbatim>\<open>while (port->cmd & (1 << 15));\<close>\<close>

partial_function (option) start_wait ::
  "(memory \<Rightarrow> memory) \<Rightarrow> layout \<Rightarrow> addr \<Rightarrow> machine \<Rightarrow> machine option" where
  "start_wait dev L port s =
     (case ld_cmd dev L port s of
        (v, s1) \<Rightarrow> if v AND push_bit 15 1 \<noteq> 0 then start_wait dev L port s1 else Some s1)"

declare start_wait.simps [code]

definition start_set :: "(memory \<Rightarrow> memory) \<Rightarrow> layout \<Rightarrow> addr \<Rightarrow> machine \<Rightarrow> machine" where
  "start_set dev L port s =
     (let (v, s1) = ld_cmd dev L port s;
          s2 = st32 (port + cmd_off L) (v OR push_bit 4 1) s1;
          (w, s3) = ld_cmd dev L port s2
      in st32 (port + cmd_off L) (w OR 1) s3)"

definition start_cmd :: "(memory \<Rightarrow> memory) \<Rightarrow> layout \<Rightarrow> addr \<Rightarrow> machine \<Rightarrow> machine option" where
  "start_cmd dev L port s = map_option (start_set dev L port) (start_wait dev L port s)"

definition stop_clear :: "(memory \<Rightarrow> memory) \<Rightarrow> layout \<Rightarrow> addr \<Rightarrow> machine \<Rightarrow> machine" where
  "stop_clear dev L port s =
     (let (v, s1) = ld_cmd dev L port s;
          s2 = st32 (port + cmd_off L) (v AND NOT 1) s1;
          (w, s3) = ld_cmd dev L port s2
      in st32 (port + cmd_off L) (w AND NOT (push_bit 4 1)) s3)"

text \<open>The \<^verbatim>\<open>for (;;)\<close> loop: each of the two tests loads the register again.\<close>

partial_function (option) stop_wait ::
  "(memory \<Rightarrow> memory) \<Rightarrow> layout \<Rightarrow> addr \<Rightarrow> machine \<Rightarrow> machine option" where
  "stop_wait dev L port s =
     (case ld_cmd dev L port s of
        (v, s1) \<Rightarrow>
          if v AND push_bit 14 1 \<noteq> 0 then stop_wait dev L port s1
          else (case ld_cmd dev L port s1 of
                  (w, s2) \<Rightarrow>
                    if w AND push_bit 15 1 \<noteq> 0 then stop_wait dev L port s2
                    else Some s2))"

declare stop_wait.simps [code]

definition stop_cmd :: "(memory \<Rightarrow> memory) \<Rightarrow> layout \<Rightarrow> addr \<Rightarrow> machine \<Rightarrow> machine option" where
  "stop_cmd dev L port s = stop_wait dev L port (stop_clear dev L port s)"

subsection \<open>port_rebase\<close>

text \<open>
  The three address expressions. The arithmetic is done in \<^verbatim>\<open>int\<close>; the index is below
  32, so nothing overflows and the 32-bit sum is the value assigned. In the command
  table expression both shifts take the index of the inner loop, whose \<^verbatim>\<open>i\<close> hides the
  port index.
\<close>

definition clb_value :: "8 word \<Rightarrow> 32 word" where
  "clb_value i = AHCI_BASE + push_bit 10 (ucast i)"

definition fb_value :: "8 word \<Rightarrow> 32 word" where
  "fb_value i = AHCI_BASE + push_bit 10 32 + push_bit 8 (ucast i)"

definition ctba_value :: "8 word \<Rightarrow> 32 word" where
  "ctba_value i = AHCI_BASE + push_bit 10 40 + push_bit 13 (ucast i) + push_bit 8 (ucast i)"

text \<open>The inner loop over the 32 command headers at \<open>cmd_header\<close>.\<close>

function rebase_headers :: "layout \<Rightarrow> addr \<Rightarrow> 8 word \<Rightarrow> machine \<Rightarrow> machine" where
  "rebase_headers L cmd_header i s =
     (if i < 32 then
        (let h = cmd_header + hdr_size L * ucast i;
             s1 = st16 (h + prdtl_off L) 8 s;
             s2 = st32 (h + ctba_off L) (ctba_value i) s1;
             s3 = st32 (h + ctbau_off L) 0 s2;
             s4 = fill (h + ctba_off L) 0 256 s3
         in rebase_headers L cmd_header (i + 1) s4)
      else s)"
  by pat_completeness auto
termination
proof (relation "measure (\<lambda>(L, cmd_header, i, s). 32 - unat i)")
  show "wf (measure (\<lambda>(L, cmd_header, i, s). 32 - unat i))"
    by simp
next
  fix L :: layout and cmd_header :: addr and i :: "8 word" and s x xa xb xc :: machine
    and h :: addr
  assume "i < 32"
  then have "unat i < 32"
    by (simp add: word_less_nat_alt)
  then have "unat (i + 1) = unat i + 1"
    by (simp add: unat_word_ariths)
  with \<open>unat i < 32\<close>
  show "((L, cmd_header, i + 1, xc), (L, cmd_header, i, s))
          \<in> measure (\<lambda>(L, cmd_header, i, s). 32 - unat i)"
    by simp
qed

declare rebase_headers.simps [simp del]

text \<open>The body of the \<^verbatim>\<open>if (pi & 1)\<close> branch of \<^verbatim>\<open>port_rebase\<close> for port \<open>i\<close>.\<close>

definition rebase_port ::
  "(memory \<Rightarrow> memory) \<Rightarrow> layout \<Rightarrow> addr \<Rightarrow> 8 word \<Rightarrow> machine \<Rightarrow> machine option" where
  "rebase_port dev L hba i s =
     (let port = port_ptr L hba i
      in case stop_cmd dev L port s of
           None \<Rightarrow> None
         | Some s1 \<Rightarrow>
             (let s2 = st32 (port + clb_off L) (clb_value i) s1;
                  s3 = st32 (port + clbu_off L) 0 s2;
                  s4 = fill (port + clb_off L) 0 1024 s3;
                  s5 = st32 (port + fb_off L) (fb_value i) s4;
                  s6 = st32 (port + fbu_off L) 0 s5;
                  s7 = fill (port + fb_off L) 0 256 s6;
                  (clb, s8) = ld32 (port + clb_off L) s7;
                  s9 = rebase_headers L (ucast clb) 0 s8
              in start_cmd dev L port s9))"

function rebase_loop ::
  "(memory \<Rightarrow> memory) \<Rightarrow> layout \<Rightarrow> addr \<Rightarrow> 8 word \<Rightarrow> 32 word \<Rightarrow> machine \<Rightarrow> machine option" where
  "rebase_loop dev L hba i pi s =
     (if i < 32 then
        (if pi AND 1 \<noteq> 0 then
           Option.bind (rebase_port dev L hba i s)
             (rebase_loop dev L hba (i + 1) (drop_bit 1 pi))
         else rebase_loop dev L hba (i + 1) (drop_bit 1 pi) s)
      else Some s)"
  by pat_completeness auto
termination
proof (relation "measure (\<lambda>(dev, L, hba, i, pi, s). 32 - unat i)")
  show "wf (measure (\<lambda>(dev, L, hba, i, pi, s). 32 - unat i))"
    by simp
next
  fix dev :: "memory \<Rightarrow> memory" and L :: layout and hba :: addr and i :: "8 word"
    and pi :: "32 word" and s y :: machine
  assume "i < 32"
  then have "unat i < 32"
    by (simp add: word_less_nat_alt)
  then have "unat (i + 1) = unat i + 1"
    by (simp add: unat_word_ariths)
  with \<open>unat i < 32\<close>
  show "((dev, L, hba, i + 1, drop_bit 1 pi, y), (dev, L, hba, i, pi, s))
          \<in> measure (\<lambda>(dev, L, hba, i, pi, s). 32 - unat i)"
    by simp
  from \<open>unat i < 32\<close> \<open>unat (i + 1) = unat i + 1\<close>
  show "((dev, L, hba, i + 1, drop_bit 1 pi, s), (dev, L, hba, i, pi, s))
          \<in> measure (\<lambda>(dev, L, hba, i, pi, s). 32 - unat i)"
    by simp
qed

declare rebase_loop.simps [simp del]

definition port_rebase :: "(memory \<Rightarrow> memory) \<Rightarrow> layout \<Rightarrow> addr \<Rightarrow> machine \<Rightarrow> machine option" where
  "port_rebase dev L hba s =
     (let (pi, s0) = ld32 (hba + pi_off L) s
      in rebase_loop dev L hba 0 pi s0)"

subsection \<open>Notions used to state the properties\<close>

text \<open>
  The classification that \<^verbatim>\<open>check_type\<close> returns for the port at \<open>port\<close> when the store
  is \<open>m\<close>, and the loads it performs to compute it.
\<close>

definition port_type :: "layout \<Rightarrow> memory \<Rightarrow> addr \<Rightarrow> int" where
  "port_type L m port = fst (check_type L port \<lparr>mem = m, bus = [], console = []\<rparr>)"

definition type_loads :: "layout \<Rightarrow> memory \<Rightarrow> addr \<Rightarrow> access list" where
  "type_loads L m port = bus (snd (check_type L port \<lparr>mem = m, bus = [], console = []\<rparr>))"

text \<open>
  The console entry for a device of type \<open>dt\<close> on port \<open>i\<close>, and one pass of the loop
  body of \<^verbatim>\<open>probe_port\<close> for bit \<open>i\<close> of the mask \<open>pi\<close>.
\<close>

definition log_line :: "int \<Rightarrow> nat \<Rightarrow> string" where
  "log_line dt i =
     ''[AHCI] '' @
     (if dt = AHCI_DEV_SATA then ''SATA''
      else if dt = AHCI_DEV_SATAPI then ''SATAPI''
      else if dt = AHCI_DEV_SEMB then ''SEMB''
      else ''PM'') @
     '' drive found, port = '' @ decimal i @ ''\<newline>''"

definition visit :: "layout \<Rightarrow> addr \<Rightarrow> 32 word \<Rightarrow> machine \<Rightarrow> nat \<Rightarrow> machine" where
  "visit L hba pi s i = (if bit pi i then report L hba (of_nat i) s else s)"

text \<open>
  The value that the \<open>n\<close>-th load of \<^verbatim>\<open>port->cmd\<close> returns (counting from 0) when the
  driver, in state \<open>s\<close>, does nothing but poll that register: the adapter runs once
  before each load.
\<close>

definition cmd_at :: "(memory \<Rightarrow> memory) \<Rightarrow> layout \<Rightarrow> addr \<Rightarrow> machine \<Rightarrow> nat \<Rightarrow> 32 word" where
  "cmd_at dev L port s n = read32 ((dev ^^ Suc n) (mem s)) (port + cmd_off L)"

text \<open>
  A machine with the AHCI register map at address 0: ports 0 and 2 are implemented
  (mask 0b101); both report detection 3 and power state 1; port 0 carries the plain
  SATA signature and port 2 the SATAPI signature.
\<close>

definition scene :: machine where
  "scene =
     \<lparr>mem = (\<lambda>x. if x = 0x0C then 0x05
                else if x = 0x124 then 0x01 else if x = 0x125 then 0x01
                else if x = 0x128 then 0x13 else if x = 0x129 then 0x01
                else if x = 0x224 then 0x01 else if x = 0x225 then 0x01
                else if x = 0x226 then 0x14 else if x = 0x227 then 0xEB
                else if x = 0x228 then 0x13 else if x = 0x229 then 0x01
                else 0),
      bus = [], console = []\<rparr>"

text \<open>
  A scripted adapter for the port whose command register is at 0x118 (port 0 of the
  register map at address 0). It counts the loads of that register in the reserved byte
  at 0x11C. Before each load it sets the second byte of the register, which holds FR
  (bit 14) and CR (bit 15), to the next entry of the script, and to 0 once the script is
  used up. The machine \<open>busy\<close> has that port running: ST, FRE, FR and CR are set.
\<close>

definition script :: "8 word list \<Rightarrow> memory \<Rightarrow> memory" where
  "script xs m =
     (case drop (unat (m 0x11C)) xs of
        [] \<Rightarrow> m(0x119 := 0)
      | x # _ \<Rightarrow> m(0x119 := x, 0x11C := m 0x11C + 1))"

definition busy :: machine where
  "busy = \<lparr>mem = (\<lambda>x. if x = 0x118 then 0x11 else if x = 0x119 then 0xC0 else 0),
           bus = [], console = []\<rparr>"

text \<open>
  The accesses of one pass of the inner loop of \<^verbatim>\<open>port_rebase\<close>, for the command header
  in slot \<open>j\<close> of the list at \<open>cmd_header\<close>.
\<close>

definition slot_events :: "layout \<Rightarrow> addr \<Rightarrow> nat \<Rightarrow> access list" where
  "slot_events L cmd_header j =
     [Store16 (cmd_header + hdr_size L * of_nat j + prdtl_off L) 8,
      Store32 (cmd_header + hdr_size L * of_nat j + ctba_off L) (ctba_value (of_nat j)),
      Store32 (cmd_header + hdr_size L * of_nat j + ctbau_off L) 0,
      Fill (cmd_header + hdr_size L * of_nat j + ctba_off L) 0 256]"

text \<open>
  A machine with the adapter's registers at 0xFEBF0000 and only port 0 implemented
  (mask 0b1). All command registers are 0, so every engine is idle. The signature
  register of port 1 holds the plain SATA signature, and the first byte of the scratch
  region (0x400000, the start of port 0's command list) holds 0xFF.
\<close>

definition rebase_in :: machine where
  "rebase_in =
     \<lparr>mem = (\<lambda>x. if x = 0xFEBF000C then 0x01
                else if x = 0xFEBF01A4 then 0x01 else if x = 0xFEBF01A5 then 0x01
                else if x = 0x400000 then 0xFF
                else 0),
      bus = [], console = []\<rparr>"

section \<open>Verification\<close>

subsection \<open>Accesses\<close>

lemma ld32_simps [simp]:
  "fst (ld32 a s) = read32 (mem s) a"
  "mem (snd (ld32 a s)) = mem s"
  "console (snd (ld32 a s)) = console s"
  "bus (snd (ld32 a s)) = bus s @ [Load32 a (read32 (mem s) a)]"
  by (simp_all add: ld32_def)

lemma kprintf_simps [simp]:
  "mem (kprintf fmt n s) = mem s"
  "bus (kprintf fmt n s) = bus s"
  "console (kprintf fmt n s) = console s @ [format_u fmt n]"
  by (simp_all add: kprintf_def)

lemma nibble_cast:
  fixes x :: "32 word" and c :: nat
  assumes "c < 256"
  shows "((ucast (x AND 0x0F) :: 8 word) = of_nat c) = (x AND 0x0F = of_nat c)"
proof -
  have "unat (x AND 0x0F) \<le> unat (0x0F :: 32 word)"
    by (rule word_and_le1 [THEN word_le_nat_alt [THEN iffD1]])
  then have b: "unat (x AND 0x0F) < 256"
    by simp
  have c8: "unat (of_nat c :: 8 word) = c" and c32: "unat (of_nat c :: 32 word) = c"
    using assms by (simp_all add: unat_of_nat)
  have "((ucast (x AND 0x0F) :: 8 word) = of_nat c)
        = (unat (ucast (x AND 0x0F) :: 8 word) = unat (of_nat c :: 8 word))"
    by (simp only: word_unat_eq_iff)
  also have "\<dots> = (unat (x AND 0x0F) = c)"
    using b by (simp add: unsigned_ucast_eq take_bit_nat_eq_self c8)
  also have "\<dots> = (x AND 0x0F = of_nat c)"
    by (simp add: word_unat_eq_iff c32)
  finally show ?thesis .
qed

lemma det_cast: "((ucast (ssts AND 0x0F :: 32 word) :: 8 word) = 3) = (ssts AND 0x0F = 3)"
  using nibble_cast [of 3 ssts] by simp

lemma ipm_cast:
  "((ucast (drop_bit 8 ssts AND 0x0F :: 32 word) :: 8 word) = 1) = (drop_bit 8 ssts AND 0x0F = 1)"
  using nibble_cast [of 1 "drop_bit 8 ssts"] by simp

lemma check_type_fst:
  "fst (check_type L port s) =
     (if read32 (mem s) (port + ssts_off L) AND 0x0F \<noteq> 3 \<or>
         drop_bit 8 (read32 (mem s) (port + ssts_off L)) AND 0x0F \<noteq> 1 then AHCI_DEV_NULL
      else if read32 (mem s) (port + sig_off L) = SATA_SIG_ATAPI then AHCI_DEV_SATAPI
      else if read32 (mem s) (port + sig_off L) = SATA_SIG_SEMB then AHCI_DEV_SEMB
      else if read32 (mem s) (port + sig_off L) = SATA_SIG_PM then AHCI_DEV_PM
      else AHCI_DEV_SATA)"
  by (simp add: check_type_def ld32_def Let_def det_cast ipm_cast
      HBA_PORT_DET_PRESENT_def HBA_PORT_IPM_ACTIVE_def)

lemma check_type_mem: "mem (snd (check_type L port s)) = mem s"
  by (simp add: check_type_def ld32_def Let_def)

lemma check_type_console: "console (snd (check_type L port s)) = console s"
  by (simp add: check_type_def ld32_def Let_def)

lemma check_type_port_type: "fst (check_type L port s) = port_type L (mem s) port"
  by (simp add: port_type_def check_type_fst)

lemma check_type_bus: "bus (snd (check_type L port s)) = bus s @ type_loads L (mem s) port"
  by (simp add: type_loads_def check_type_def ld32_def Let_def)

lemma type_loads_eq:
  "type_loads L m port =
     Load32 (port + ssts_off L) (read32 m (port + ssts_off L)) #
     (if read32 m (port + ssts_off L) AND 0x0F = 3 \<and>
         drop_bit 8 (read32 m (port + ssts_off L)) AND 0x0F = 1
      then [Load32 (port + sig_off L) (read32 m (port + sig_off L))] else [])"
  by (simp add: type_loads_def check_type_def ld32_def Let_def det_cast ipm_cast
      HBA_PORT_DET_PRESENT_def HBA_PORT_IPM_ACTIVE_def)

lemma port_type_range:
  "port_type L m port \<in> {AHCI_DEV_NULL, AHCI_DEV_SATA, AHCI_DEV_SEMB, AHCI_DEV_PM, AHCI_DEV_SATAPI}"
  by (simp add: port_type_def check_type_fst)

lemma format_lines:
  "format_u ''[AHCI] SATA drive found, port = %u\<newline>'' n = log_line AHCI_DEV_SATA n"
  "format_u ''[AHCI] SATAPI drive found, port = %u\<newline>'' n = log_line AHCI_DEV_SATAPI n"
  "format_u ''[AHCI] SEMB drive found, port = %u\<newline>'' n = log_line AHCI_DEV_SEMB n"
  "format_u ''[AHCI] PM drive found, port = %u\<newline>'' n = log_line AHCI_DEV_PM n"
  by (simp_all add: log_line_def AHCI_DEV_SATA_def AHCI_DEV_SATAPI_def AHCI_DEV_SEMB_def
      AHCI_DEV_PM_def)

lemma report_mem: "mem (report L hba i s) = mem s"
  by (simp add: report_def split_beta check_type_mem)

lemma report_bus:
  "bus (report L hba i s) = bus s @ type_loads L (mem s) (port_ptr L hba i)"
  by (simp add: report_def split_beta check_type_bus)

lemma dev_distinct:
  "AHCI_DEV_NULL \<noteq> AHCI_DEV_SATA"
  "AHCI_DEV_NULL \<noteq> AHCI_DEV_SEMB"
  "AHCI_DEV_NULL \<noteq> AHCI_DEV_PM"
  "AHCI_DEV_NULL \<noteq> AHCI_DEV_SATAPI"
  "AHCI_DEV_SATA \<noteq> AHCI_DEV_NULL"
  "AHCI_DEV_SATA \<noteq> AHCI_DEV_SEMB"
  "AHCI_DEV_SATA \<noteq> AHCI_DEV_PM"
  "AHCI_DEV_SATA \<noteq> AHCI_DEV_SATAPI"
  "AHCI_DEV_SEMB \<noteq> AHCI_DEV_NULL"
  "AHCI_DEV_SEMB \<noteq> AHCI_DEV_SATA"
  "AHCI_DEV_SEMB \<noteq> AHCI_DEV_PM"
  "AHCI_DEV_SEMB \<noteq> AHCI_DEV_SATAPI"
  "AHCI_DEV_PM \<noteq> AHCI_DEV_NULL"
  "AHCI_DEV_PM \<noteq> AHCI_DEV_SATA"
  "AHCI_DEV_PM \<noteq> AHCI_DEV_SEMB"
  "AHCI_DEV_PM \<noteq> AHCI_DEV_SATAPI"
  "AHCI_DEV_SATAPI \<noteq> AHCI_DEV_NULL"
  "AHCI_DEV_SATAPI \<noteq> AHCI_DEV_SATA"
  "AHCI_DEV_SATAPI \<noteq> AHCI_DEV_SEMB"
  "AHCI_DEV_SATAPI \<noteq> AHCI_DEV_PM"
  by (simp_all add: AHCI_DEV_SATA_def AHCI_DEV_SATAPI_def AHCI_DEV_SEMB_def AHCI_DEV_PM_def
      AHCI_DEV_NULL_def)

lemma report_console:
  "console (report L hba i s) =
     console s @
     (if port_type L (mem s) (port_ptr L hba i) \<noteq> AHCI_DEV_NULL
      then [log_line (port_type L (mem s) (port_ptr L hba i)) (unat i)] else [])"
proof -
  have "port_type L (mem s) (port_ptr L hba i)
          \<in> {AHCI_DEV_NULL, AHCI_DEV_SATA, AHCI_DEV_SEMB, AHCI_DEV_PM, AHCI_DEV_SATAPI}"
    by (rule port_type_range)
  then consider "port_type L (mem s) (port_ptr L hba i) = AHCI_DEV_NULL"
    | "port_type L (mem s) (port_ptr L hba i) = AHCI_DEV_SATA"
    | "port_type L (mem s) (port_ptr L hba i) = AHCI_DEV_SEMB"
    | "port_type L (mem s) (port_ptr L hba i) = AHCI_DEV_PM"
    | "port_type L (mem s) (port_ptr L hba i) = AHCI_DEV_SATAPI"
    by auto
  then show ?thesis
    by cases
      (simp_all add: report_def split_beta check_type_console check_type_port_type format_lines
        dev_distinct del: format_u.simps)
qed

lemma probe_loop_fold:
  assumes "k \<le> 32"
  shows "probe_loop L hba (of_nat k) (drop_bit k pi) s = foldl (visit L hba pi) s [k..<32]"
  using assms
proof (induction k arbitrary: s rule: inc_induct)
  case base
  show ?case
    by (subst probe_loop.simps) simp
next
  case (step n)
  from step.hyps have lt: "(of_nat n :: 8 word) < 32"
    by (simp add: word_less_nat_alt unat_of_nat)
  have test: "(drop_bit n pi AND 1 \<noteq> 0) = bit pi n"
    by (simp add: and_one_eq bit_iff_odd_drop_bit odd_iff_mod_2_eq_one)
  have "probe_loop L hba (of_nat n) (drop_bit n pi) s =
        probe_loop L hba (of_nat (Suc n)) (drop_bit (Suc n) pi) (visit L hba pi s n)"
    by (subst probe_loop.simps) (simp add: lt test visit_def drop_bit_drop_bit add.commute)
  also have "\<dots> = foldl (visit L hba pi) (visit L hba pi s n) [Suc n..<32]"
    by (rule step.IH)
  also have "\<dots> = foldl (visit L hba pi) s [n..<32]"
    using step.hyps by (simp add: upt_conv_Cons)
  finally show ?case .
qed

lemma visits_mem: "mem (foldl (visit L hba pi) s xs) = mem s"
  by (induction xs arbitrary: s) (simp_all add: visit_def report_mem)

lemma visits_bus:
  "bus (foldl (visit L hba pi) s xs) =
     bus s @ concat (map (\<lambda>i. type_loads L (mem s) (port_ptr L hba (of_nat i))) (filter (bit pi) xs))"
  by (induction xs arbitrary: s) (simp_all add: visit_def report_mem report_bus)

lemma visits_console:
  "\<forall>i \<in> set xs. i < 256 \<Longrightarrow>
   console (foldl (visit L hba pi) s xs) =
     console s @
     map (\<lambda>i. log_line (port_type L (mem s) (port_ptr L hba (of_nat i))) i)
       (filter (\<lambda>i. bit pi i \<and> port_type L (mem s) (port_ptr L hba (of_nat i)) \<noteq> AHCI_DEV_NULL) xs)"
  by (induction xs arbitrary: s) (simp_all add: visit_def report_mem report_console unat_of_nat)

lemma probe_port_fold:
  "probe_port L hba s =
     foldl (visit L hba (read32 (mem s) (hba + pi_off L)))
       (snd (ld32 (hba + pi_off L) s)) [0..<32]"
  using probe_loop_fold [of 0 L hba "read32 (mem s) (hba + pi_off L)"]
  by (simp add: probe_port_def split_beta)

subsection \<open>check_type and probe_port\<close>

lemma mask5: "filter (bit (5::32 word)) [0..<32] = [0, 2]"
  by code_simp

text \<open>
  Claim C4. The value \<^verbatim>\<open>check_type\<close> returns depends only on the detection field
  (bits 0-3 of the status word), the power-management field (bits 8-11) and the
  signature. If the detection field is not 3 or the power field is not 1 the result is
  \<open>AHCI_DEV_NULL\<close>, whatever the signature. Otherwise the result is SATAPI, SEMB or PM
  exactly when the signature is the respective constant, and SATA for every other
  signature, the plain SATA constant included. The call changes neither the store nor
  the console.
\<close>

theorem check_type_classification:
  "let ssts = read32 (mem s) (port + ssts_off L);
       sig = read32 (mem s) (port + sig_off L);
       dt = fst (check_type L port s)
   in (ssts AND 0x0F \<noteq> 3 \<or> drop_bit 8 ssts AND 0x0F \<noteq> 1 \<longrightarrow> dt = AHCI_DEV_NULL) \<and>
      (ssts AND 0x0F = 3 \<and> drop_bit 8 ssts AND 0x0F = 1 \<longrightarrow>
         (dt = AHCI_DEV_SATAPI \<longleftrightarrow> sig = SATA_SIG_ATAPI) \<and>
         (dt = AHCI_DEV_SEMB \<longleftrightarrow> sig = SATA_SIG_SEMB) \<and>
         (dt = AHCI_DEV_PM \<longleftrightarrow> sig = SATA_SIG_PM) \<and>
         (dt = AHCI_DEV_SATA \<longleftrightarrow> sig \<notin> {SATA_SIG_ATAPI, SATA_SIG_SEMB, SATA_SIG_PM}) \<and>
         (sig = SATA_SIG_ATA \<longrightarrow> dt = AHCI_DEV_SATA)) \<and>
      mem (snd (check_type L port s)) = mem s \<and>
      console (snd (check_type L port s)) = console s"
  by (simp add: Let_def check_type_fst check_type_mem check_type_console dev_distinct
      SATA_SIG_ATA_def SATA_SIG_ATAPI_def SATA_SIG_SEMB_def SATA_SIG_PM_def)

lemma scene_reads:
  "read32 (mem scene) 0x0C = 5"
  "read32 (mem scene) 0x124 = 0x101"
  "read32 (mem scene) 0x128 = 0x113"
  "read32 (mem scene) 0x1A8 = 0"
  "read32 (mem scene) 0x224 = 0xEB140101"
  "read32 (mem scene) 0x228 = 0x113"
  by (simp_all add: scene_def read32_def)

text \<open>
  The three cases of the classification on the machine \<open>scene\<close>: port 0 (SATA), port 2
  (SATAPI) and port 1, whose status word is 0 (absent).
\<close>

theorem check_type_classification_witness:
  "read32 (mem scene) 0x128 AND 0x0F = 3 \<and> drop_bit 8 (read32 (mem scene) 0x128) AND 0x0F = 1 \<and>
   read32 (mem scene) 0x124 = SATA_SIG_ATA \<and>
   fst (check_type ahci_map 0x100 scene) = AHCI_DEV_SATA \<and>
   read32 (mem scene) 0x228 AND 0x0F = 3 \<and> drop_bit 8 (read32 (mem scene) 0x228) AND 0x0F = 1 \<and>
   read32 (mem scene) 0x224 = SATA_SIG_ATAPI \<and>
   fst (check_type ahci_map 0x200 scene) = AHCI_DEV_SATAPI \<and>
   read32 (mem scene) 0x1A8 AND 0x0F \<noteq> 3 \<and>
   fst (check_type ahci_map 0x180 scene) = AHCI_DEV_NULL"
  using check_type_classification [of scene "0x100" ahci_map]
    check_type_classification [of scene "0x200" ahci_map]
    check_type_classification [of scene "0x180" ahci_map]
  by (simp add: Let_def ahci_map_def scene_reads SATA_SIG_ATA_def SATA_SIG_ATAPI_def
      SATA_SIG_SEMB_def SATA_SIG_PM_def)

text \<open>
  Claim C5. For every mask, \<^verbatim>\<open>probe_port\<close> classifies exactly the ports whose bit is set,
  in ascending order: after the load of the mask, the loads on the bus are those of
  \<^verbatim>\<open>check_type\<close> for the set bits 0, 1, ..., 31 in this order. The console gains exactly
  one entry, naming the type and the port index, for each such port that is not
  classified \<open>AHCI_DEV_NULL\<close>, and none for the others.
\<close>

theorem probe_port_reports:
  "console (probe_port L hba s) =
     console s @
     map (\<lambda>i. log_line (port_type L (mem s) (port_ptr L hba (of_nat i))) i)
       (filter (\<lambda>i. bit (read32 (mem s) (hba + pi_off L)) i \<and>
                    port_type L (mem s) (port_ptr L hba (of_nat i)) \<noteq> AHCI_DEV_NULL) [0..<32]) \<and>
   bus (probe_port L hba s) =
     bus s @ Load32 (hba + pi_off L) (read32 (mem s) (hba + pi_off L)) #
     concat (map (\<lambda>i. type_loads L (mem s) (port_ptr L hba (of_nat i)))
       (filter (bit (read32 (mem s) (hba + pi_off L))) [0..<32]))"
  by (simp add: probe_port_fold visits_console visits_bus)

text \<open>
  Claim C9. \<^verbatim>\<open>probe_port\<close> leaves the whole store unchanged. Its accesses are one load of
  the ports-implemented register followed only by loads of the status and signature
  registers of implemented ports; it performs no store and no fill. Where the layout
  keeps those port registers apart from the ports-implemented register, that register
  is therefore loaded exactly once. The console is the only other part of the machine,
  so log entries are the only effect.
\<close>

theorem probe_port_frame:
  "mem (probe_port L hba s) = mem s \<and>
   (\<exists>evs. bus (probe_port L hba s) =
            bus s @ Load32 (hba + pi_off L) (read32 (mem s) (hba + pi_off L)) # evs \<and>
          (\<forall>e \<in> set evs. \<exists>i v. i < 32 \<and> bit (read32 (mem s) (hba + pi_off L)) i \<and>
             (e = Load32 (port_ptr L hba (of_nat i) + ssts_off L) v \<or>
              e = Load32 (port_ptr L hba (of_nat i) + sig_off L) v)) \<and>
          ((\<forall>i<32. port_ptr L hba (of_nat i) + ssts_off L \<noteq> hba + pi_off L \<and>
                   port_ptr L hba (of_nat i) + sig_off L \<noteq> hba + pi_off L) \<longrightarrow>
           (\<forall>e \<in> set evs. \<forall>v. e \<noteq> Load32 (hba + pi_off L) v)))"
proof -
  let ?pi = "read32 (mem s) (hba + pi_off L)"
  let ?evs = "concat (map (\<lambda>i. type_loads L (mem s) (port_ptr L hba (of_nat i)))
       (filter (bit ?pi) [0..<32]))"
  have b: "bus (probe_port L hba s) = bus s @ Load32 (hba + pi_off L) ?pi # ?evs"
    by (simp add: probe_port_fold visits_bus)
  have a: "\<forall>e \<in> set ?evs. \<exists>i v. i < 32 \<and> bit ?pi i \<and>
             (e = Load32 (port_ptr L hba (of_nat i) + ssts_off L) v \<or>
              e = Load32 (port_ptr L hba (of_nat i) + sig_off L) v)"
    by (auto simp add: type_loads_eq split: if_splits)
  have d: "\<forall>e \<in> set ?evs. \<forall>v. e \<noteq> Load32 (hba + pi_off L) v"
    if "\<forall>i<32. port_ptr L hba (of_nat i) + ssts_off L \<noteq> hba + pi_off L \<and>
                port_ptr L hba (of_nat i) + sig_off L \<noteq> hba + pi_off L"
  proof (intro ballI allI)
    fix e v
    assume "e \<in> set ?evs"
    with a obtain i w where "i < 32"
      and "e = Load32 (port_ptr L hba (of_nat i) + ssts_off L) w \<or>
           e = Load32 (port_ptr L hba (of_nat i) + sig_off L) w"
      by blast
    with that show "e \<noteq> Load32 (hba + pi_off L) v"
      by auto
  qed
  have m: "mem (probe_port L hba s) = mem s"
    by (simp add: probe_port_fold visits_mem)
  from b a d have "\<exists>evs. bus (probe_port L hba s) =
            bus s @ Load32 (hba + pi_off L) ?pi # evs \<and>
          (\<forall>e \<in> set evs. \<exists>i v. i < 32 \<and> bit ?pi i \<and>
             (e = Load32 (port_ptr L hba (of_nat i) + ssts_off L) v \<or>
              e = Load32 (port_ptr L hba (of_nat i) + sig_off L) v)) \<and>
          ((\<forall>i<32. port_ptr L hba (of_nat i) + ssts_off L \<noteq> hba + pi_off L \<and>
                   port_ptr L hba (of_nat i) + sig_off L \<noteq> hba + pi_off L) \<longrightarrow>
           (\<forall>e \<in> set evs. \<forall>v. e \<noteq> Load32 (hba + pi_off L) v))"
    by (intro exI [of _ ?evs] conjI impI)
  with m show ?thesis ..
qed

lemma port_registers_apart:
  assumes "i < 32"
  shows "port_ptr ahci_map 0 (of_nat i) + ssts_off ahci_map \<noteq> 0 + pi_off ahci_map"
    and "port_ptr ahci_map 0 (of_nat i) + sig_off ahci_map \<noteq> 0 + pi_off ahci_map"
proof -
  have u: "unat (ucast (of_nat i :: 8 word) :: addr) = i"
    using assms by (simp add: unsigned_ucast_eq unat_of_nat take_bit_nat_eq_self)
  have "unat (0x80 * (ucast (of_nat i :: 8 word) :: addr)) = (128 * i) mod 2 ^ 64"
    by (simp add: unat_word_ariths u)
  then have m: "unat (0x80 * (ucast (of_nat i :: 8 word) :: addr)) = 128 * i"
    using assms by simp
  have "unat (0x100 + 0x80 * (ucast (of_nat i :: 8 word) :: addr) + 0x28) = (296 + 128 * i) mod 2 ^ 64"
    by (simp add: unat_word_ariths m u mod_simps)
  then have a: "unat (0x100 + 0x80 * (ucast (of_nat i :: 8 word) :: addr) + 0x28) = 296 + 128 * i"
    using assms by simp
  have "unat (0x100 + 0x80 * (ucast (of_nat i :: 8 word) :: addr) + 0x24) = (292 + 128 * i) mod 2 ^ 64"
    by (simp add: unat_word_ariths m u mod_simps)
  then have b: "unat (0x100 + 0x80 * (ucast (of_nat i :: 8 word) :: addr) + 0x24) = 292 + 128 * i"
    using assms by simp
  have e1: "port_ptr ahci_map 0 (of_nat i) + ssts_off ahci_map =
        0x100 + 0x80 * (ucast (of_nat i :: 8 word) :: addr) + 0x28"
    and e2: "port_ptr ahci_map 0 (of_nat i) + sig_off ahci_map =
        0x100 + 0x80 * (ucast (of_nat i :: 8 word) :: addr) + 0x24"
    and f: "0 + pi_off ahci_map = (0xC :: addr)"
    by (simp_all add: port_ptr_def ahci_map_def)
  show "port_ptr ahci_map 0 (of_nat i) + ssts_off ahci_map \<noteq> 0 + pi_off ahci_map"
  proof
    assume "port_ptr ahci_map 0 (of_nat i) + ssts_off ahci_map = 0 + pi_off ahci_map"
    then have "unat (0x100 + 0x80 * (ucast (of_nat i :: 8 word) :: addr) + 0x28) = unat (0xC :: addr)"
      unfolding e1 f by (rule arg_cong)
    with a show False
      by simp
  qed
  show "port_ptr ahci_map 0 (of_nat i) + sig_off ahci_map \<noteq> 0 + pi_off ahci_map"
  proof
    assume "port_ptr ahci_map 0 (of_nat i) + sig_off ahci_map = 0 + pi_off ahci_map"
    then have "unat (0x100 + 0x80 * (ucast (of_nat i :: 8 word) :: addr) + 0x24) = unat (0xC :: addr)"
      unfolding e2 f by (rule arg_cong)
    with b show False
      by simp
  qed
qed

text \<open>
  On the machine \<open>scene\<close> the status and signature registers of all 32 ports lie apart
  from the ports-implemented register, and the loop does load port registers.
\<close>

theorem probe_port_frame_witness:
  "mem (probe_port ahci_map 0 scene) = mem scene \<and>
   (\<exists>evs. bus (probe_port ahci_map 0 scene) =
            bus scene @ Load32 (0 + pi_off ahci_map) (read32 (mem scene) (0 + pi_off ahci_map)) # evs \<and>
          evs \<noteq> [] \<and>
          (\<forall>e \<in> set evs. \<exists>i v. i < 32 \<and> bit (read32 (mem scene) (0 + pi_off ahci_map)) i \<and>
             (e = Load32 (port_ptr ahci_map 0 (of_nat i) + ssts_off ahci_map) v \<or>
              e = Load32 (port_ptr ahci_map 0 (of_nat i) + sig_off ahci_map) v)) \<and>
          (\<forall>e \<in> set evs. \<forall>v. e \<noteq> Load32 (0 + pi_off ahci_map) v))"
proof -
  from probe_port_frame [of ahci_map 0 scene] obtain evs where
    m: "mem (probe_port ahci_map 0 scene) = mem scene" and
    b: "bus (probe_port ahci_map 0 scene) =
          bus scene @ Load32 (0 + pi_off ahci_map) (read32 (mem scene) (0 + pi_off ahci_map)) # evs" and
    a: "\<forall>e \<in> set evs. \<exists>i v. i < 32 \<and> bit (read32 (mem scene) (0 + pi_off ahci_map)) i \<and>
             (e = Load32 (port_ptr ahci_map 0 (of_nat i) + ssts_off ahci_map) v \<or>
              e = Load32 (port_ptr ahci_map 0 (of_nat i) + sig_off ahci_map) v)" and
    d: "(\<forall>i<32. port_ptr ahci_map 0 (of_nat i) + ssts_off ahci_map \<noteq> 0 + pi_off ahci_map \<and>
                port_ptr ahci_map 0 (of_nat i) + sig_off ahci_map \<noteq> 0 + pi_off ahci_map) \<longrightarrow>
        (\<forall>e \<in> set evs. \<forall>v. e \<noteq> Load32 (0 + pi_off ahci_map) v)"
    by (elim exE conjE)
  from d port_registers_apart have d': "\<forall>e \<in> set evs. \<forall>v. e \<noteq> Load32 (0 + pi_off ahci_map) v"
    by blast
  have "bus (probe_port ahci_map 0 scene) =
          bus scene @ Load32 (0 + pi_off ahci_map) (read32 (mem scene) (0 + pi_off ahci_map)) #
          concat (map (\<lambda>i. type_loads ahci_map (mem scene) (port_ptr ahci_map 0 (of_nat i)))
            (filter (bit (read32 (mem scene) (0 + pi_off ahci_map))) [0..<32]))"
    by (simp add: probe_port_fold visits_bus)
  with b have "evs = concat (map (\<lambda>i. type_loads ahci_map (mem scene) (port_ptr ahci_map 0 (of_nat i)))
            (filter (bit (read32 (mem scene) (0 + pi_off ahci_map))) [0..<32]))"
    by simp
  moreover have "read32 (mem scene) (0 + pi_off ahci_map) = 5"
    by (simp add: ahci_map_def scene_reads)
  ultimately have "evs \<noteq> []"
    by (simp add: mask5 type_loads_eq)
  with m b a d' show ?thesis
    by (intro conjI exI [of _ evs])
qed

lemma probe_port_two_ports:
  assumes "read32 (mem s) (hba + pi_off L) = 5"
    and "port_type L (mem s) (port_ptr L hba 0) = AHCI_DEV_SATA"
    and "port_type L (mem s) (port_ptr L hba 2) = AHCI_DEV_SATAPI"
  shows "console (probe_port L hba s) =
     console s @ [''[AHCI] SATA drive found, port = 0\<newline>'',
                  ''[AHCI] SATAPI drive found, port = 2\<newline>'']"
proof -
  have "filter (\<lambda>i. bit (5::32 word) i \<and> port_type L (mem s) (port_ptr L hba (of_nat i)) \<noteq> AHCI_DEV_NULL) [0..<32]
        = filter (\<lambda>i. port_type L (mem s) (port_ptr L hba (of_nat i)) \<noteq> AHCI_DEV_NULL)
            (filter (bit (5::32 word)) [0..<32])"
    by (simp add: conj_commute)
  also have "\<dots> = [0, 2]"
    using assms(2,3) by (simp add: mask5 dev_distinct)
  finally show ?thesis
    using assms
    by (simp add: probe_port_fold visits_console log_line_def decimal.simps dev_distinct)
qed

text \<open>
  Claim C8. With mask 0b101, port 0 present and active with the plain SATA signature and
  port 2 present and active with the SATAPI signature, \<^verbatim>\<open>probe_port\<close> appends exactly two
  entries to the console: the SATA entry for port 0 and the SATAPI entry for port 2 (each
  with the driver's \<^verbatim>\<open>[AHCI]\<close> tag and a newline).
\<close>

theorem probe_port_scenario:
  assumes "read32 (mem s) (hba + pi_off L) = 5"
    and "read32 (mem s) (port_ptr L hba 0 + ssts_off L) AND 0x0F = 3"
    and "drop_bit 8 (read32 (mem s) (port_ptr L hba 0 + ssts_off L)) AND 0x0F = 1"
    and "read32 (mem s) (port_ptr L hba 0 + sig_off L) = SATA_SIG_ATA"
    and "read32 (mem s) (port_ptr L hba 2 + ssts_off L) AND 0x0F = 3"
    and "drop_bit 8 (read32 (mem s) (port_ptr L hba 2 + ssts_off L)) AND 0x0F = 1"
    and "read32 (mem s) (port_ptr L hba 2 + sig_off L) = SATA_SIG_ATAPI"
  shows "console (probe_port L hba s) =
     console s @ [''[AHCI] SATA drive found, port = 0\<newline>'',
                  ''[AHCI] SATAPI drive found, port = 2\<newline>'']"
proof (rule probe_port_two_ports)
  show "read32 (mem s) (hba + pi_off L) = 5"
    by (fact assms(1))
  show "port_type L (mem s) (port_ptr L hba 0) = AHCI_DEV_SATA"
    using assms(2-4)
    by (simp add: port_type_def check_type_fst SATA_SIG_ATA_def SATA_SIG_ATAPI_def
        SATA_SIG_SEMB_def SATA_SIG_PM_def)
  show "port_type L (mem s) (port_ptr L hba 2) = AHCI_DEV_SATAPI"
    using assms(5-7)
    by (simp add: port_type_def check_type_fst)
qed

text \<open>
  The scenario on the machine \<open>scene\<close>.
\<close>

theorem probe_port_scenario_witness:
  "read32 (mem scene) (0 + pi_off ahci_map) = 5 \<and>
   read32 (mem scene) (port_ptr ahci_map 0 0 + sig_off ahci_map) = SATA_SIG_ATA \<and>
   read32 (mem scene) (port_ptr ahci_map 0 2 + sig_off ahci_map) = SATA_SIG_ATAPI \<and>
   console (probe_port ahci_map 0 scene) =
     [''[AHCI] SATA drive found, port = 0\<newline>'',
      ''[AHCI] SATAPI drive found, port = 2\<newline>'']"
proof -
  have c: "console scene = []"
    by (simp add: scene_def)
  have h: "read32 (mem scene) (0 + pi_off ahci_map) = 5"
    "read32 (mem scene) (port_ptr ahci_map 0 0 + ssts_off ahci_map) AND 0x0F = 3"
    "drop_bit 8 (read32 (mem scene) (port_ptr ahci_map 0 0 + ssts_off ahci_map)) AND 0x0F = 1"
    "read32 (mem scene) (port_ptr ahci_map 0 0 + sig_off ahci_map) = SATA_SIG_ATA"
    "read32 (mem scene) (port_ptr ahci_map 0 2 + ssts_off ahci_map) AND 0x0F = 3"
    "drop_bit 8 (read32 (mem scene) (port_ptr ahci_map 0 2 + ssts_off ahci_map)) AND 0x0F = 1"
    "read32 (mem scene) (port_ptr ahci_map 0 2 + sig_off ahci_map) = SATA_SIG_ATAPI"
    by (simp_all add: ahci_map_def port_ptr_def scene_reads SATA_SIG_ATA_def SATA_SIG_ATAPI_def)
  show ?thesis
    using probe_port_scenario [OF h] h c by simp
qed

subsection \<open>stop_cmd and start_cmd\<close>

lemma ld_cmd_simps:
  "fst (ld_cmd dev L port s) = cmd_at dev L port s 0"
  "mem (snd (ld_cmd dev L port s)) = dev (mem s)"
  "console (snd (ld_cmd dev L port s)) = console s"
  "bus (snd (ld_cmd dev L port s)) = bus s @ [Load32 (port + cmd_off L) (cmd_at dev L port s 0)]"
  by (simp_all add: ld_cmd_def ld32_def cmd_at_def)

lemma cmd_at_ld_cmd: "cmd_at dev L port (snd (ld_cmd dev L port s)) n = cmd_at dev L port s (Suc n)"
  by (simp add: cmd_at_def ld_cmd_simps funpow_swap1)

lemma cmd_after_ld_cmd:
  "read32 (mem (snd (ld_cmd dev L port s))) (port + cmd_off L) = cmd_at dev L port s 0"
  by (simp add: cmd_at_def ld_cmd_simps)

lemma test_bit: "(v AND push_bit n 1 \<noteq> 0) = bit v n" for v :: "32 word"
  by (simp add: bit_iff_and_push_bit_not_eq_0)

lemma test_bits:
  "(v AND 16384 \<noteq> 0) = bit v 14" "(v AND 32768 \<noteq> 0) = bit v 15"
  "(v AND 16384 = 0) = (\<not> bit v 14)" "(v AND 32768 = 0) = (\<not> bit v 15)" for v :: "32 word"
  using test_bit [of v 14] test_bit [of v 15] by auto

lemma stop_wait_unfold:
  "stop_wait dev L port s =
     (if bit (cmd_at dev L port s 0) 14 then stop_wait dev L port (snd (ld_cmd dev L port s))
      else if bit (cmd_at dev L port s 1) 15
        then stop_wait dev L port (snd (ld_cmd dev L port (snd (ld_cmd dev L port s))))
        else Some (snd (ld_cmd dev L port (snd (ld_cmd dev L port s)))))"
  by (subst stop_wait.simps)
    (simp add: split_beta test_bits ld_cmd_simps cmd_at_ld_cmd)

lemma stop_wait_returns:
  assumes "\<forall>n. bit (cmd_at dev L port s n) 14 \<longleftrightarrow> n < a"
    and "\<forall>n. bit (cmd_at dev L port s n) 15 \<longleftrightarrow> n < b"
  shows "\<exists>s'. stop_wait dev L port s = Some s' \<and>
           \<not> bit (read32 (mem s') (port + cmd_off L)) 14 \<and>
           \<not> bit (read32 (mem s') (port + cmd_off L)) 15 \<and>
           (\<forall>n. \<not> bit (cmd_at dev L port s' n) 14 \<and> \<not> bit (cmd_at dev L port s' n) 15)"
  using assms
proof (induction "a + b" arbitrary: s a b rule: less_induct)
  case less
  let ?s1 = "snd (ld_cmd dev L port s)"
  let ?s2 = "snd (ld_cmd dev L port ?s1)"
  show ?case
  proof (cases "0 < a")
    case True
    have fr1: "\<forall>n. bit (cmd_at dev L port ?s1 n) 14 \<longleftrightarrow> n < a - 1"
      and cr1: "\<forall>n. bit (cmd_at dev L port ?s1 n) 15 \<longleftrightarrow> n < b - 1"
      using less.prems by (simp_all add: cmd_at_ld_cmd less_diff_conv)
    have lt: "(a - 1) + (b - 1) < a + b"
      using True by simp
    have set: "bit (cmd_at dev L port s 0) 14"
      using less.prems(1) True by simp
    from less.hyps [OF lt fr1 cr1] set show ?thesis
      by (subst stop_wait_unfold) (simp only: if_True)
  next
    case False
    then have a0: "a = 0"
      by simp
    then have fr: "\<not> bit (cmd_at dev L port s n) 14" for n
      using less.prems(1) by simp
    show ?thesis
    proof (cases "1 < b")
      case True
      have fr2: "\<forall>n. bit (cmd_at dev L port ?s2 n) 14 \<longleftrightarrow> n < 0"
        using fr by (simp add: cmd_at_ld_cmd)
      have cr2: "\<forall>n. bit (cmd_at dev L port ?s2 n) 15 \<longleftrightarrow> n < b - 2"
        using less.prems(2) by (simp add: cmd_at_ld_cmd less_diff_conv)
      have lt: "0 + (b - 2) < a + b"
        using True by simp
      have set: "bit (cmd_at dev L port s 1) 15"
        using less.prems(2) True by simp
      from less.hyps [OF lt fr2 cr2] set fr [of 0] show ?thesis
        by (subst stop_wait_unfold) (simp only: if_True if_False)
    next
      case False
      then have cr: "\<not> bit (cmd_at dev L port s n) 15" if "1 \<le> n" for n
        using less.prems(2) that by simp
      have val: "read32 (mem ?s2) (port + cmd_off L) = cmd_at dev L port s 1"
        by (simp add: cmd_after_ld_cmd cmd_at_ld_cmd)
      have later: "cmd_at dev L port ?s2 n = cmd_at dev L port s (Suc (Suc n))" for n
        by (simp add: cmd_at_ld_cmd)
      have "stop_wait dev L port s = Some ?s2"
        using fr [of 0] cr [of 1] by (subst stop_wait_unfold) simp
      moreover have "\<not> bit (read32 (mem ?s2) (port + cmd_off L)) 14"
        "\<not> bit (read32 (mem ?s2) (port + cmd_off L)) 15"
        unfolding val using fr [of 1] cr [of 1] by simp_all
      moreover have "\<forall>n. \<not> bit (cmd_at dev L port ?s2 n) 14 \<and> \<not> bit (cmd_at dev L port ?s2 n) 15"
        unfolding later using fr cr by simp
      ultimately show ?thesis
        by (intro exI [of _ ?s2] conjI)
    qed
  qed
qed

text \<open>
  When each of the two bits reads as set for a bounded number of polls and as clear from
  then on, both are clear in the register when \<^verbatim>\<open>stop_cmd\<close> returns, and in every later
  poll.
\<close>

lemma stop_cmd_returns_idle:
  assumes "\<forall>n. bit (cmd_at dev L port (stop_clear dev L port s) n) 14 \<longleftrightarrow> n < a"
    and "\<forall>n. bit (cmd_at dev L port (stop_clear dev L port s) n) 15 \<longleftrightarrow> n < b"
  shows "\<exists>s'. stop_cmd dev L port s = Some s' \<and>
           \<not> bit (read32 (mem s') (port + cmd_off L)) 14 \<and>
           \<not> bit (read32 (mem s') (port + cmd_off L)) 15 \<and>
           (\<forall>n. \<not> bit (cmd_at dev L port s' n) 14 \<and> \<not> bit (cmd_at dev L port s' n) 15)"
  unfolding stop_cmd_def using assms by (rule stop_wait_returns)

lemma polls_Suc:
  "map (\<lambda>n. Load32 a (cmd_at dev L port s n)) [0..<Suc (Suc j)] =
     Load32 a (cmd_at dev L port s 0) #
     map (\<lambda>n. Load32 a (cmd_at dev L port (snd (ld_cmd dev L port s)) n)) [0..<Suc j]"
  by (simp only: upt_conv_Cons [of 0 "Suc (Suc j)"] map_Suc_upt [symmetric] list.map map_map
      o_def cmd_at_ld_cmd zero_less_Suc if_True)

lemma stop_wait_exits:
  assumes "\<forall>n\<ge>N. \<not> bit (cmd_at dev L port s n) 14 \<and> \<not> bit (cmd_at dev L port s n) 15"
  shows "\<exists>s' j. stop_wait dev L port s = Some s' \<and>
           bus s' = bus s @ map (\<lambda>n. Load32 (port + cmd_off L) (cmd_at dev L port s n)) [0..<Suc (Suc j)] \<and>
           \<not> bit (cmd_at dev L port s j) 14 \<and> \<not> bit (cmd_at dev L port s (Suc j)) 15 \<and>
           read32 (mem s') (port + cmd_off L) = cmd_at dev L port s (Suc j)"
  using assms
proof (induction N arbitrary: s rule: less_induct)
  case (less N)
  let ?c = "port + cmd_off L"
  let ?s1 = "snd (ld_cmd dev L port s)"
  let ?s2 = "snd (ld_cmd dev L port ?s1)"
  show ?case
  proof (cases "bit (cmd_at dev L port s 0) 14")
    case True
    with less.prems have "0 < N"
      by (cases N) auto
    then have lt: "N - 1 < N"
      by simp
    have h: "\<forall>n\<ge>N - 1. \<not> bit (cmd_at dev L port ?s1 n) 14 \<and> \<not> bit (cmd_at dev L port ?s1 n) 15"
      using less.prems by (simp add: cmd_at_ld_cmd)
    from less.IH [OF lt h] obtain s' j where
      r: "stop_wait dev L port ?s1 = Some s'"
      and b: "bus s' = bus ?s1 @ map (\<lambda>n. Load32 ?c (cmd_at dev L port ?s1 n)) [0..<Suc (Suc j)]"
      and f: "\<not> bit (cmd_at dev L port ?s1 j) 14" "\<not> bit (cmd_at dev L port ?s1 (Suc j)) 15"
      and v: "read32 (mem s') ?c = cmd_at dev L port ?s1 (Suc j)"
      by (elim exE conjE)
    have "stop_wait dev L port s = Some s'"
      using True r by (subst stop_wait_unfold) simp
    moreover have "bus s' = bus s @ map (\<lambda>n. Load32 ?c (cmd_at dev L port s n)) [0..<Suc (Suc (Suc j))]"
      unfolding b polls_Suc [of ?c dev L port s "Suc j"] by (simp add: ld_cmd_simps)
    moreover have "\<not> bit (cmd_at dev L port s (Suc j)) 14" "\<not> bit (cmd_at dev L port s (Suc (Suc j))) 15"
      "read32 (mem s') ?c = cmd_at dev L port s (Suc (Suc j))"
      using f v by (simp_all add: cmd_at_ld_cmd)
    ultimately show ?thesis
      by (intro exI [of _ s'] exI [of _ "Suc j"] conjI)
  next
    case fr: False
    show ?thesis
    proof (cases "bit (cmd_at dev L port s 1) 15")
      case True
      with less.prems have "1 < N"
        by (metis not_less)
      then have lt: "N - 2 < N"
        by simp
      have h: "\<forall>n\<ge>N - 2. \<not> bit (cmd_at dev L port ?s2 n) 14 \<and> \<not> bit (cmd_at dev L port ?s2 n) 15"
        using less.prems by (simp add: cmd_at_ld_cmd)
      from less.IH [OF lt h] obtain s' j where
        r: "stop_wait dev L port ?s2 = Some s'"
        and b: "bus s' = bus ?s2 @ map (\<lambda>n. Load32 ?c (cmd_at dev L port ?s2 n)) [0..<Suc (Suc j)]"
        and f: "\<not> bit (cmd_at dev L port ?s2 j) 14" "\<not> bit (cmd_at dev L port ?s2 (Suc j)) 15"
        and v: "read32 (mem s') ?c = cmd_at dev L port ?s2 (Suc j)"
        by (elim exE conjE)
      have "stop_wait dev L port s = Some s'"
        using fr True r by (subst stop_wait_unfold) simp
      moreover have "bus s' = bus s @ map (\<lambda>n. Load32 ?c (cmd_at dev L port s n)) [0..<Suc (Suc (Suc (Suc j)))]"
        unfolding b polls_Suc [of ?c dev L port s "Suc (Suc j)"] polls_Suc [of ?c dev L port ?s1 "Suc j"]
        by (simp add: ld_cmd_simps)
      moreover have "\<not> bit (cmd_at dev L port s (Suc (Suc j))) 14"
        "\<not> bit (cmd_at dev L port s (Suc (Suc (Suc j)))) 15"
        "read32 (mem s') ?c = cmd_at dev L port s (Suc (Suc (Suc j)))"
        using f v by (simp_all add: cmd_at_ld_cmd)
      ultimately show ?thesis
        by (intro exI [of _ s'] exI [of _ "Suc (Suc j)"] conjI)
    next
      case False
      have "stop_wait dev L port s = Some ?s2"
        using fr False by (subst stop_wait_unfold) simp
      moreover have "bus ?s2 = bus s @ map (\<lambda>n. Load32 ?c (cmd_at dev L port s n)) [0..<Suc (Suc 0)]"
        by (simp add: ld_cmd_simps cmd_at_ld_cmd)
      moreover have "read32 (mem ?s2) ?c = cmd_at dev L port s (Suc 0)"
        by (simp add: cmd_after_ld_cmd cmd_at_ld_cmd)
      ultimately show ?thesis
        using fr False by (intro exI [of _ ?s2] exI [of _ 0] conjI) simp_all
    qed
  qed
qed

text \<open>
  Claim C6 (as amended). Take any adapter for which, once \<^verbatim>\<open>stop_cmd\<close> has cleared ST and
  FRE, both FR and CR read as clear from some poll on. Then \<^verbatim>\<open>stop_cmd\<close> returns, and its
  last two accesses are a load that read FR as clear followed by a load that read CR as
  clear; the register holds the value of that last load. The two tests use separate
  loads, so both bits are clear in the register at that moment provided that FR, once
  read as clear, stays clear at the next poll.
\<close>

theorem stop_cmd_returns_after_idle_loads:
  assumes "\<forall>n\<ge>N. \<not> bit (cmd_at dev L port (stop_clear dev L port s) n) 14 \<and>
                  \<not> bit (cmd_at dev L port (stop_clear dev L port s) n) 15"
  shows "\<exists>s' evs v w. stop_cmd dev L port s = Some s' \<and>
           bus s' = evs @ [Load32 (port + cmd_off L) v, Load32 (port + cmd_off L) w] \<and>
           \<not> bit v 14 \<and> \<not> bit w 15 \<and>
           read32 (mem s') (port + cmd_off L) = w \<and>
           ((\<forall>n. \<not> bit (cmd_at dev L port (stop_clear dev L port s) n) 14 \<longrightarrow>
                 \<not> bit (cmd_at dev L port (stop_clear dev L port s) (Suc n)) 14) \<longrightarrow>
            \<not> bit w 14)"
proof -
  let ?c = "port + cmd_off L"
  let ?sc = "stop_clear dev L port s"
  from stop_wait_exits [OF assms] obtain s' j where
    r: "stop_wait dev L port ?sc = Some s'"
    and b: "bus s' = bus ?sc @ map (\<lambda>n. Load32 ?c (cmd_at dev L port ?sc n)) [0..<Suc (Suc j)]"
    and f: "\<not> bit (cmd_at dev L port ?sc j) 14" "\<not> bit (cmd_at dev L port ?sc (Suc j)) 15"
    and v: "read32 (mem s') ?c = cmd_at dev L port ?sc (Suc j)"
    by (elim exE conjE)
  have "stop_cmd dev L port s = Some s'"
    by (simp add: stop_cmd_def r)
  moreover have "bus s' = (bus ?sc @ map (\<lambda>n. Load32 ?c (cmd_at dev L port ?sc n)) [0..<j]) @
      [Load32 ?c (cmd_at dev L port ?sc j), Load32 ?c (cmd_at dev L port ?sc (Suc j))]"
    unfolding b by simp
  moreover have "(\<forall>n. \<not> bit (cmd_at dev L port ?sc n) 14 \<longrightarrow>
                 \<not> bit (cmd_at dev L port ?sc (Suc n)) 14) \<longrightarrow>
            \<not> bit (cmd_at dev L port ?sc (Suc j)) 14"
    using f(1) by blast
  ultimately show ?thesis
    using f v
    by (intro exI [of _ s'] exI [of _ "bus ?sc @ map (\<lambda>n. Load32 ?c (cmd_at dev L port ?sc n)) [0..<j]"]
        exI [of _ "cmd_at dev L port ?sc j"] exI [of _ "cmd_at dev L port ?sc (Suc j)"] conjI)
qed

lemma script_done:
  assumes "length xs \<le> unat (m 0x11C)"
  shows "(script xs ^^ Suc n) m = m(0x119 := 0)"
proof (induction n)
  case 0
  show ?case
    using assms by (simp add: script_def)
next
  case (Suc n)
  have "(script xs ^^ Suc (Suc n)) m = script xs ((script xs ^^ Suc n) m)"
    by simp
  also have "\<dots> = script xs (m(0x119 := 0))"
    by (simp only: Suc)
  also have "\<dots> = m(0x119 := 0)"
    using assms by (simp add: script_def)
  finally show ?case .
qed

lemma cmd_0x100: "0x100 + cmd_off ahci_map = (0x118 :: addr)"
  by (simp add: ahci_map_def)

lemma busy_empty: "bus busy = []" "console busy = []"
  by (simp_all add: busy_def)

lemma flicker_cleared:
  "mem (stop_clear (script [0xC0, 0xC0, 0x80, 0x40]) ahci_map 0x100 busy) =
     (\<lambda>x. if x = 0x119 then 0xC0 else if x = 0x11C then 2 else 0)"
  "bus (stop_clear (script [0xC0, 0xC0, 0x80, 0x40]) ahci_map 0x100 busy) =
     [Load32 0x118 0xC011, Store32 0x118 0xC010, Load32 0x118 0xC010, Store32 0x118 0xC000]"
  by (rule ext)
    (simp_all add: stop_clear_def ld_cmd_def ld32_def st32_def Let_def busy_def ahci_map_def
      script_def read32_def write32_def)

lemma flicker_polls:
  "cmd_at (script [0xC0, 0xC0, 0x80, 0x40]) ahci_map 0x100
     (stop_clear (script [0xC0, 0xC0, 0x80, 0x40]) ahci_map 0x100 busy) n =
     (if n = 0 then 0x8000 else if n = 1 then 0x4000 else 0)"
proof -
  let ?D = "script [0xC0, 0xC0, 0x80, 0x40]"
  let ?m = "\<lambda>x :: addr. if x = 0x119 then 0xC0 else if x = 0x11C then 2 else (0 :: 8 word)"
  have m1: "?D ?m = (\<lambda>x. if x = 0x119 then 0x80 else if x = 0x11C then 3 else 0)"
    by (rule ext) (simp add: script_def)
  have m2: "?D (\<lambda>x. if x = 0x119 then 0x80 else if x = 0x11C then 3 else 0) =
      (\<lambda>x. if x = 0x119 then 0x40 else if x = 0x11C then 4 else 0)"
    by (rule ext) (simp add: script_def)
  have later: "(?D ^^ Suc k) (\<lambda>x. if x = 0x119 then 0x40 else if x = 0x11C then 4 else 0) =
      (\<lambda>x. if x = 0x11C then 4 else 0)" for k
    by (subst script_done) (simp_all add: fun_eq_iff)
  consider "n = 0" | "n = 1" | k where "n = Suc (Suc k)"
    by (cases n rule: nat.exhaust; simp) (metis One_nat_def not0_implies_Suc)
  then show ?thesis
  proof cases
    case 1
    then show ?thesis
      unfolding cmd_at_def cmd_0x100 flicker_cleared by (simp add: m1 read32_def)
  next
    case 2
    then show ?thesis
      unfolding cmd_at_def cmd_0x100 flicker_cleared by (simp add: m1 m2 read32_def)
  next
    case 3
    have "(?D ^^ Suc (Suc (Suc k))) ?m = (?D ^^ Suc k) (?D (?D ?m))"
      by (simp only: funpow_Suc_right o_apply)
    then show ?thesis
      using 3 unfolding cmd_at_def cmd_0x100 flicker_cleared
      by (simp add: m1 m2 later read32_def del: funpow.simps)
  qed
qed

text \<open>
  The claim as stated fails. With this adapter both bits read as clear from the third
  poll on, but the first poll reads FR clear and CR set, and the second reads FR set and
  CR clear: the first test passes on the first load, the second test on the second load,
  and \<^verbatim>\<open>stop_cmd\<close> returns while the register holds 0x4000, with FR set.
\<close>

theorem stop_cmd_returns_with_FR_set:
  "(\<forall>n. \<not> bit (cmd_at (script [0xC0, 0xC0, 0x80, 0x40]) ahci_map 0x100
             (stop_clear (script [0xC0, 0xC0, 0x80, 0x40]) ahci_map 0x100 busy) (n + 2)) 14 \<and>
        \<not> bit (cmd_at (script [0xC0, 0xC0, 0x80, 0x40]) ahci_map 0x100
             (stop_clear (script [0xC0, 0xC0, 0x80, 0x40]) ahci_map 0x100 busy) (n + 2)) 15) \<and>
   (\<exists>s'. stop_cmd (script [0xC0, 0xC0, 0x80, 0x40]) ahci_map 0x100 busy = Some s' \<and>
      bus s' = [Load32 0x118 0xC011, Store32 0x118 0xC010, Load32 0x118 0xC010,
                Store32 0x118 0xC000, Load32 0x118 0x8000, Load32 0x118 0x4000] \<and>
      read32 (mem s') (0x100 + cmd_off ahci_map) = 0x4000 \<and>
      bit (read32 (mem s') (0x100 + cmd_off ahci_map)) 14)"
proof -
  let ?D = "script [0xC0, 0xC0, 0x80, 0x40]"
  let ?sc = "stop_clear ?D ahci_map 0x100 busy"
  let ?s1 = "snd (ld_cmd ?D ahci_map 0x100 ?sc)"
  let ?s2 = "snd (ld_cmd ?D ahci_map 0x100 ?s1)"
  have run: "stop_cmd ?D ahci_map 0x100 busy = Some ?s2"
    unfolding stop_cmd_def by (subst stop_wait_unfold) (simp add: flicker_polls)
  have val: "read32 (mem ?s2) (0x100 + cmd_off ahci_map) = 0x4000"
    by (simp add: cmd_after_ld_cmd cmd_at_ld_cmd flicker_polls)
  have trace: "bus ?s2 = [Load32 0x118 0xC011, Store32 0x118 0xC010, Load32 0x118 0xC010,
                Store32 0x118 0xC000, Load32 0x118 0x8000, Load32 0x118 0x4000]"
    by (simp add: ld_cmd_simps cmd_at_ld_cmd flicker_polls flicker_cleared cmd_0x100)
  have "bit (read32 (mem ?s2) (0x100 + cmd_off ahci_map)) 14"
    unfolding val by simp
  with run val trace show ?thesis
    by (simp add: flicker_polls)
qed

lemma settle_cleared:
  "mem (stop_clear (script [0xC0, 0xC0, 0xC0, 0x80, 0x80]) ahci_map 0x100 busy) =
     (\<lambda>x. if x = 0x119 then 0xC0 else if x = 0x11C then 2 else 0)"
  "bus (stop_clear (script [0xC0, 0xC0, 0xC0, 0x80, 0x80]) ahci_map 0x100 busy) =
     [Load32 0x118 0xC011, Store32 0x118 0xC010, Load32 0x118 0xC010, Store32 0x118 0xC000]"
  by (rule ext)
    (simp_all add: stop_clear_def ld_cmd_def ld32_def st32_def Let_def busy_def ahci_map_def
      script_def read32_def write32_def)

lemma settle_polls:
  "cmd_at (script [0xC0, 0xC0, 0xC0, 0x80, 0x80]) ahci_map 0x100
     (stop_clear (script [0xC0, 0xC0, 0xC0, 0x80, 0x80]) ahci_map 0x100 busy) n =
     (if n = 0 then 0xC000 else if n \<le> 2 then 0x8000 else 0)"
proof -
  let ?D = "script [0xC0, 0xC0, 0xC0, 0x80, 0x80]"
  let ?m = "\<lambda>x :: addr. if x = 0x119 then 0xC0 else if x = 0x11C then 2 else (0 :: 8 word)"
  have m1: "?D ?m = (\<lambda>x. if x = 0x119 then 0xC0 else if x = 0x11C then 3 else 0)"
    by (rule ext) (simp add: script_def)
  have m2: "?D (\<lambda>x. if x = 0x119 then 0xC0 else if x = 0x11C then 3 else 0) =
      (\<lambda>x. if x = 0x119 then 0x80 else if x = 0x11C then 4 else 0)"
    by (rule ext) (simp add: script_def)
  have m3: "?D (\<lambda>x. if x = 0x119 then 0x80 else if x = 0x11C then 4 else 0) =
      (\<lambda>x. if x = 0x119 then 0x80 else if x = 0x11C then 5 else 0)"
    by (rule ext) (simp add: script_def)
  have later: "(?D ^^ Suc k) (\<lambda>x. if x = 0x119 then 0x80 else if x = 0x11C then 5 else 0) =
      (\<lambda>x. if x = 0x11C then 5 else 0)" for k
    by (subst script_done) (simp_all add: fun_eq_iff)
  consider "n = 0" | "n = 1" | "n = 2" | k where "n = Suc (Suc (Suc k))"
    by (metis One_nat_def Suc_1 not0_implies_Suc)
  then show ?thesis
  proof cases
    case 1
    then show ?thesis
      unfolding cmd_at_def cmd_0x100 settle_cleared by (simp add: m1 read32_def)
  next
    case 2
    then show ?thesis
      unfolding cmd_at_def cmd_0x100 settle_cleared by (simp add: m1 m2 read32_def)
  next
    case 3
    have "(?D ^^ Suc 2) ?m = ?D (?D (?D ?m))"
      by (simp add: eval_nat_numeral)
    then show ?thesis
      using 3 unfolding cmd_at_def cmd_0x100 settle_cleared
      by (simp add: m1 m2 m3 read32_def del: funpow.simps)
  next
    case 4
    have "(?D ^^ Suc (Suc (Suc (Suc k)))) ?m = (?D ^^ Suc k) (?D (?D (?D ?m)))"
      by (simp only: funpow_Suc_right o_apply)
    then show ?thesis
      using 4 unfolding cmd_at_def cmd_0x100 settle_cleared
      by (simp add: m1 m2 m3 later read32_def del: funpow.simps)
  qed
qed

text \<open>
  An adapter that keeps FR set for one poll and CR set for three: both branches that
  repeat the loop are taken before \<^verbatim>\<open>stop_cmd\<close> returns, and FR never comes back.
\<close>

theorem stop_cmd_returns_after_idle_loads_witness:
  "bit (cmd_at (script [0xC0, 0xC0, 0xC0, 0x80, 0x80]) ahci_map 0x100
          (stop_clear (script [0xC0, 0xC0, 0xC0, 0x80, 0x80]) ahci_map 0x100 busy) 0) 14 \<and>
   bit (cmd_at (script [0xC0, 0xC0, 0xC0, 0x80, 0x80]) ahci_map 0x100
          (stop_clear (script [0xC0, 0xC0, 0xC0, 0x80, 0x80]) ahci_map 0x100 busy) 2) 15 \<and>
   (\<forall>n. \<not> bit (cmd_at (script [0xC0, 0xC0, 0xC0, 0x80, 0x80]) ahci_map 0x100
             (stop_clear (script [0xC0, 0xC0, 0xC0, 0x80, 0x80]) ahci_map 0x100 busy) (n + 3)) 14 \<and>
        \<not> bit (cmd_at (script [0xC0, 0xC0, 0xC0, 0x80, 0x80]) ahci_map 0x100
             (stop_clear (script [0xC0, 0xC0, 0xC0, 0x80, 0x80]) ahci_map 0x100 busy) (n + 3)) 15) \<and>
   (\<exists>s' evs v w.
      stop_cmd (script [0xC0, 0xC0, 0xC0, 0x80, 0x80]) ahci_map 0x100 busy = Some s' \<and>
      bus s' = [Load32 0x118 0xC011, Store32 0x118 0xC010, Load32 0x118 0xC010,
                Store32 0x118 0xC000, Load32 0x118 0xC000, Load32 0x118 0x8000,
                Load32 0x118 0x8000, Load32 0x118 0, Load32 0x118 0] \<and>
      bus s' = evs @ [Load32 (0x100 + cmd_off ahci_map) v, Load32 (0x100 + cmd_off ahci_map) w] \<and>
      \<not> bit v 14 \<and> \<not> bit w 15 \<and> \<not> bit w 14 \<and>
      read32 (mem s') (0x100 + cmd_off ahci_map) = w)"
proof -
  let ?D = "script [0xC0, 0xC0, 0xC0, 0x80, 0x80]"
  let ?sc = "stop_clear ?D ahci_map 0x100 busy"
  let ?s1 = "snd (ld_cmd ?D ahci_map 0x100 ?sc)"
  let ?s3 = "snd (ld_cmd ?D ahci_map 0x100 (snd (ld_cmd ?D ahci_map 0x100 ?s1)))"
  let ?s5 = "snd (ld_cmd ?D ahci_map 0x100 (snd (ld_cmd ?D ahci_map 0x100 ?s3)))"
  have h: "\<forall>n\<ge>3. \<not> bit (cmd_at ?D ahci_map 0x100 ?sc n) 14 \<and> \<not> bit (cmd_at ?D ahci_map 0x100 ?sc n) 15"
    by (simp add: settle_polls)
  have stable: "\<forall>n. \<not> bit (cmd_at ?D ahci_map 0x100 ?sc n) 14 \<longrightarrow>
      \<not> bit (cmd_at ?D ahci_map 0x100 ?sc (Suc n)) 14"
    by (simp add: settle_polls)
  from stop_cmd_returns_after_idle_loads [OF h] obtain s' evs v w where
    r: "stop_cmd ?D ahci_map 0x100 busy = Some s'"
    and b: "bus s' = evs @ [Load32 (0x100 + cmd_off ahci_map) v, Load32 (0x100 + cmd_off ahci_map) w]"
    and f: "\<not> bit v 14" "\<not> bit w 15" "read32 (mem s') (0x100 + cmd_off ahci_map) = w"
    and g: "(\<forall>n. \<not> bit (cmd_at ?D ahci_map 0x100 ?sc n) 14 \<longrightarrow>
              \<not> bit (cmd_at ?D ahci_map 0x100 ?sc (Suc n)) 14) \<longrightarrow> \<not> bit w 14"
    by (elim exE conjE)
  from g stable have w: "\<not> bit w 14"
    by (rule mp)
  have "stop_wait ?D ahci_map 0x100 ?sc = stop_wait ?D ahci_map 0x100 ?s1"
    by (subst stop_wait_unfold) (simp add: settle_polls)
  also have "\<dots> = stop_wait ?D ahci_map 0x100 ?s3"
    by (subst stop_wait_unfold) (simp add: settle_polls cmd_at_ld_cmd)
  also have "\<dots> = Some ?s5"
    by (subst stop_wait_unfold) (simp add: settle_polls cmd_at_ld_cmd)
  finally have "stop_cmd ?D ahci_map 0x100 busy = Some ?s5"
    by (simp add: stop_cmd_def)
  with r have s': "s' = ?s5"
    by simp
  have trace: "bus s' = [Load32 0x118 0xC011, Store32 0x118 0xC010, Load32 0x118 0xC010,
                Store32 0x118 0xC000, Load32 0x118 0xC000, Load32 0x118 0x8000,
                Load32 0x118 0x8000, Load32 0x118 0, Load32 0x118 0]"
    unfolding s' by (simp add: ld_cmd_simps cmd_at_ld_cmd settle_polls settle_cleared cmd_0x100)
  have "bit (cmd_at ?D ahci_map 0x100 ?sc 0) 14" "bit (cmd_at ?D ahci_map 0x100 ?sc 2) 15"
    "\<forall>n. \<not> bit (cmd_at ?D ahci_map 0x100 ?sc (n + 3)) 14 \<and>
         \<not> bit (cmd_at ?D ahci_map 0x100 ?sc (n + 3)) 15"
    by (simp_all add: settle_polls)
  with r trace b f w show ?thesis
    by (intro conjI exI [of _ s'] exI [of _ evs] exI [of _ v] exI [of _ w])
qed

lemma start_wait_unfold:
  "start_wait dev L port s =
     (if bit (cmd_at dev L port s 0) 15 then start_wait dev L port (snd (ld_cmd dev L port s))
      else Some (snd (ld_cmd dev L port s)))"
  by (subst start_wait.simps)
    (simp add: split_beta test_bits ld_cmd_simps)

lemma start_wait_exits:
  assumes "\<not> bit (cmd_at dev L port s k) 15" and "\<forall>n<k. bit (cmd_at dev L port s n) 15"
  shows "\<exists>s'. start_wait dev L port s = Some s' \<and>
           mem s' = (dev ^^ Suc k) (mem s) \<and> console s' = console s \<and>
           bus s' = bus s @ map (\<lambda>n. Load32 (port + cmd_off L) (cmd_at dev L port s n)) [0..<Suc k]"
  using assms
proof (induction k arbitrary: s)
  case 0
  then show ?case
    by (subst start_wait_unfold) (simp add: ld_cmd_simps)
next
  case (Suc k)
  let ?s1 = "snd (ld_cmd dev L port s)"
  have "\<not> bit (cmd_at dev L port ?s1 k) 15" and "\<forall>n<k. bit (cmd_at dev L port ?s1 n) 15"
    using Suc.prems by (auto simp add: cmd_at_ld_cmd)
  then obtain s' where s': "start_wait dev L port ?s1 = Some s'"
      "mem s' = (dev ^^ Suc k) (mem ?s1)" "console s' = console ?s1"
      "bus s' = bus ?s1 @ map (\<lambda>n. Load32 (port + cmd_off L) (cmd_at dev L port ?s1 n)) [0..<Suc k]"
    using Suc.IH by blast
  have shift: "map (\<lambda>n. Load32 (port + cmd_off L) (cmd_at dev L port s n)) [0..<Suc (Suc k)] =
        Load32 (port + cmd_off L) (cmd_at dev L port s 0) #
        map (\<lambda>n. Load32 (port + cmd_off L) (cmd_at dev L port ?s1 n)) [0..<Suc k]"
    by (simp only: upt_conv_Cons [of 0 "Suc (Suc k)"] map_Suc_upt [symmetric] list.map map_map
        o_def cmd_at_ld_cmd)
  have "bit (cmd_at dev L port s 0) 15"
    using Suc.prems(2) by simp
  then show ?case
    using s' by (subst start_wait_unfold) (simp only: shift, simp add: ld_cmd_simps funpow_swap1)
qed

lemma start_wait_Some_exits:
  assumes "start_wait dev L port s = Some s'"
  shows "\<exists>n. \<not> bit (cmd_at dev L port s n) 15"
proof (rule start_wait.raw_induct
    [where P = "\<lambda>dev L port s s'. \<exists>n. \<not> bit (cmd_at dev L port s n) 15", OF _ assms])
  fix f :: "(memory \<Rightarrow> memory) \<Rightarrow> layout \<Rightarrow> addr \<Rightarrow> machine \<Rightarrow> machine option"
    and dev L port s s'
  assume IH: "\<And>dev L port s s'. f dev L port s = Some s' \<Longrightarrow>
                \<exists>n. \<not> bit (cmd_at dev L port s n) 15"
    and eq: "(case ld_cmd dev L port s of
                (v, s1) \<Rightarrow> if v AND push_bit 15 1 \<noteq> 0 then f dev L port s1 else Some s1) = Some s'"
  show "\<exists>n. \<not> bit (cmd_at dev L port s n) 15"
  proof (cases "bit (cmd_at dev L port s 0) 15")
    case True
    with eq have "f dev L port (snd (ld_cmd dev L port s)) = Some s'"
      by (simp add: split_beta test_bits ld_cmd_simps)
    from IH [OF this] obtain n where
      "\<not> bit (cmd_at dev L port (snd (ld_cmd dev L port s)) n) 15" ..
    then have "\<not> bit (cmd_at dev L port s (Suc n)) 15"
      by (simp add: cmd_at_ld_cmd)
    then show ?thesis ..
  next
    case False
    then show ?thesis ..
  qed
qed

lemma first_index:
  fixes P :: "nat \<Rightarrow> bool"
  assumes "\<exists>n. \<not> P n"
  shows "\<exists>k. \<not> P k \<and> (\<forall>n<k. P n)"
proof -
  have "\<not> P (LEAST n. \<not> P n)"
    using assms by (rule LeastI_ex)
  moreover have "P n" if "n < (LEAST n. \<not> P n)" for n
    using not_less_Least [OF that] by simp
  ultimately show ?thesis
    by blast
qed

lemma start_wait_None_iff:
  "start_wait dev L port s = None \<longleftrightarrow> (\<forall>n. bit (cmd_at dev L port s n) 15)"
proof
  assume "start_wait dev L port s = None"
  show "\<forall>n. bit (cmd_at dev L port s n) 15"
  proof (rule ccontr)
    assume "\<not> (\<forall>n. bit (cmd_at dev L port s n) 15)"
    then have ex: "\<exists>n. \<not> bit (cmd_at dev L port s n) 15"
      by simp
    from first_index [OF ex] obtain k where
      a: "\<not> bit (cmd_at dev L port s k) 15" and b: "\<forall>n<k. bit (cmd_at dev L port s n) 15"
      by (elim exE conjE)
    from start_wait_exits [OF a b] obtain s' where "start_wait dev L port s = Some s'"
      by (elim exE conjE)
    then have "\<exists>s'. start_wait dev L port s = Some s'" ..
    with \<open>start_wait dev L port s = None\<close> show False
      by simp
  qed
next
  assume "\<forall>n. bit (cmd_at dev L port s n) 15"
  then show "start_wait dev L port s = None"
    using start_wait_Some_exits [of dev L port s] by (cases "start_wait dev L port s") auto
qed

lemma start_wait_shape:
  assumes "start_wait dev L port s = Some s'"
  shows "\<exists>k. bus s' = bus s @ map (\<lambda>n. Load32 (port + cmd_off L) (cmd_at dev L port s n)) [0..<Suc k] \<and>
           mem s' = (dev ^^ Suc k) (mem s) \<and>
           (\<forall>n<k. bit (cmd_at dev L port s n) 15) \<and> \<not> bit (cmd_at dev L port s k) 15"
proof -
  from assms have ex: "\<exists>n. \<not> bit (cmd_at dev L port s n) 15"
    by (rule start_wait_Some_exits)
  from first_index [OF ex] obtain k where
    a: "\<not> bit (cmd_at dev L port s k) 15" and b: "\<forall>n<k. bit (cmd_at dev L port s n) 15"
    by (elim exE conjE)
  from start_wait_exits [OF a b] obtain s0 where
    "start_wait dev L port s = Some s0" and
    "mem s0 = (dev ^^ Suc k) (mem s)" and
    "bus s0 = bus s @ map (\<lambda>n. Load32 (port + cmd_off L) (cmd_at dev L port s n)) [0..<Suc k]"
    by (elim exE conjE)
  with assms have
    "bus s' = bus s @ map (\<lambda>n. Load32 (port + cmd_off L) (cmd_at dev L port s n)) [0..<Suc k]"
    "mem s' = (dev ^^ Suc k) (mem s)"
    by simp_all
  with a b show ?thesis
    by (intro exI [of _ k] conjI)
qed

lemma start_set_bus:
  "\<exists>w. bus (start_set dev L port s) =
     bus s @ [Load32 (port + cmd_off L) (cmd_at dev L port s 0),
              Store32 (port + cmd_off L) (cmd_at dev L port s 0 OR push_bit 4 1),
              Load32 (port + cmd_off L) w, Store32 (port + cmd_off L) (w OR 1)]"
  by (simp add: start_set_def Let_def split_beta st32_def ld_cmd_simps)

text \<open>
  Claim C7 (as amended). \<^verbatim>\<open>start_cmd\<close> stores nothing before a poll of its loop has read
  CR (bit 15) as clear: its accesses are loads that all read CR as set, one load that
  reads CR as clear, and only then two read-modify-write pairs, the first storing the
  loaded value with FRE (bit 4) set, the second storing the loaded value with ST (bit 0)
  set. The loads of the two pairs are not tested for CR; the first of them reads what
  the next poll would have read. If CR reads as set at every poll, \<^verbatim>\<open>start_cmd\<close> never
  leaves the loop and stores nothing; otherwise it returns.
\<close>

theorem start_cmd_waits_for_idle:
  "(\<forall>s'. start_cmd dev L port s = Some s' \<longrightarrow>
      (\<exists>k v w. bus s' =
           bus s @ map (\<lambda>n. Load32 (port + cmd_off L) (cmd_at dev L port s n)) [0..<Suc k] @
           [Load32 (port + cmd_off L) v, Store32 (port + cmd_off L) (v OR push_bit 4 1),
            Load32 (port + cmd_off L) w, Store32 (port + cmd_off L) (w OR 1)] \<and>
         (\<forall>n<k. bit (cmd_at dev L port s n) 15) \<and> \<not> bit (cmd_at dev L port s k) 15 \<and>
         v = cmd_at dev L port s (Suc k))) \<and>
   (start_cmd dev L port s = None \<longleftrightarrow> (\<forall>n. bit (cmd_at dev L port s n) 15))"
proof (intro conjI allI impI)
  fix s'
  assume "start_cmd dev L port s = Some s'"
  then obtain s0 where s0: "start_wait dev L port s = Some s0" and s': "s' = start_set dev L port s0"
    by (auto simp add: start_cmd_def)
  from start_wait_shape [OF s0] obtain k where
    k: "bus s0 = bus s @ map (\<lambda>n. Load32 (port + cmd_off L) (cmd_at dev L port s n)) [0..<Suc k]"
      "mem s0 = (dev ^^ Suc k) (mem s)"
      "\<forall>n<k. bit (cmd_at dev L port s n) 15" "\<not> bit (cmd_at dev L port s k) 15"
    by (elim exE conjE)
  have v: "cmd_at dev L port s0 0 = cmd_at dev L port s (Suc k)"
    by (simp add: cmd_at_def k(2))
  from start_set_bus [of dev L port s0] obtain w where
    "bus s' = bus s0 @ [Load32 (port + cmd_off L) (cmd_at dev L port s0 0),
              Store32 (port + cmd_off L) (cmd_at dev L port s0 0 OR push_bit 4 1),
              Load32 (port + cmd_off L) w, Store32 (port + cmd_off L) (w OR 1)]"
    unfolding s' by (elim exE)
  with k v show "\<exists>k v w. bus s' =
           bus s @ map (\<lambda>n. Load32 (port + cmd_off L) (cmd_at dev L port s n)) [0..<Suc k] @
           [Load32 (port + cmd_off L) v, Store32 (port + cmd_off L) (v OR push_bit 4 1),
            Load32 (port + cmd_off L) w, Store32 (port + cmd_off L) (w OR 1)] \<and>
         (\<forall>n<k. bit (cmd_at dev L port s n) 15) \<and> \<not> bit (cmd_at dev L port s k) 15 \<and>
         v = cmd_at dev L port s (Suc k)"
    by (intro exI [of _ k] exI [of _ "cmd_at dev L port s (Suc k)"] exI [of _ w]) simp
next
  show "start_cmd dev L port s = None \<longleftrightarrow> (\<forall>n. bit (cmd_at dev L port s n) 15)"
    by (simp add: start_cmd_def start_wait_None_iff)
qed

lemma scene_bytes:
  "mem scene 0x118 = 0" "mem scene 0x119 = 0" "mem scene 0x11A = 0" "mem scene 0x11B = 0"
  "mem scene 0x11C = 0"
  by (simp_all add: scene_def)

lemma scene_empty: "bus scene = []" "console scene = []"
  by (simp_all add: scene_def)

text \<open>
  The claim as stated fails. With an adapter that shows CR clear at the first load and
  set at the second, the loop exits at once, the read-modify-write load reads 0x8000
  (CR set), and the next access stores 0x8010: FRE is written right after a load that
  read CR as set.
\<close>

theorem start_cmd_stores_after_busy_load:
  "map_option bus (start_cmd (script [0x00, 0x80]) ahci_map 0x100 scene) =
     Some [Load32 0x118 0, Load32 0x118 0x8000, Store32 0x118 0x8010,
           Load32 0x118 0x10, Store32 0x118 0x11] \<and>
   bit (0x8000 :: 32 word) 15 \<and> bit (0x8010 :: 32 word) 4"
proof -
  let ?D = "script [0x00, 0x80]"
  have c: "0x100 + cmd_off ahci_map = (0x118 :: addr)"
    by (simp add: ahci_map_def)
  have p0: "cmd_at ?D ahci_map 0x100 scene 0 = 0"
    unfolding cmd_at_def c by (simp add: script_def read32_def scene_bytes)
  have w: "start_wait ?D ahci_map 0x100 scene = Some (snd (ld_cmd ?D ahci_map 0x100 scene))"
    by (subst start_wait_unfold) (simp add: p0)
  show ?thesis
    unfolding start_cmd_def w option.map
    by (simp add: start_set_def Let_def split_beta ld_cmd_def ld32_def st32_def c script_def
        read32_def write32_def scene_bytes scene_empty)
qed

lemma waiting_polls:
  "cmd_at (script [0x80, 0x80]) ahci_map 0x100 scene n = (if n < 2 then 0x8000 else 0)"
proof -
  let ?D = "script [0x80, 0x80]"
  have c: "0x100 + cmd_off ahci_map = (0x118 :: addr)"
    by (simp add: ahci_map_def)
  have m1: "?D (mem scene) = (mem scene)(0x119 := 0x80, 0x11C := 1)"
    by (simp add: script_def scene_bytes)
  have m2: "?D ((mem scene)(0x119 := 0x80, 0x11C := 1)) = (mem scene)(0x119 := 0x80, 0x11C := 2)"
    by (rule ext) (simp add: script_def)
  have later: "(?D ^^ Suc k) ((mem scene)(0x119 := 0x80, 0x11C := 2)) =
      (mem scene)(0x119 := 0, 0x11C := 2)" for k
    by (subst script_done) (simp_all add: fun_upd_twist)
  consider "n = 0" | "n = 1" | k where "n = Suc (Suc k)"
    by (cases n rule: nat.exhaust; simp) (metis One_nat_def not0_implies_Suc)
  then show ?thesis
  proof cases
    case 1
    then show ?thesis
      unfolding cmd_at_def c by (simp add: m1 read32_def scene_bytes)
  next
    case 2
    then show ?thesis
      unfolding cmd_at_def c by (simp add: m1 m2 read32_def scene_bytes)
  next
    case 3
    have "(?D ^^ Suc (Suc (Suc k))) (mem scene) = (?D ^^ Suc k) (?D (?D (mem scene)))"
      by (simp only: funpow_Suc_right o_apply)
    then show ?thesis
      using 3 unfolding cmd_at_def c by (simp add: m1 m2 later read32_def scene_bytes del: funpow.simps)
  qed
qed

text \<open>
  An adapter that keeps CR set for two polls: \<^verbatim>\<open>start_cmd\<close> waits, and stores only after
  the third poll has read CR clear.
\<close>

theorem start_cmd_waits_for_idle_witness:
  "bit (cmd_at (script [0x80, 0x80]) ahci_map 0x100 scene 0) 15 \<and>
   (\<exists>s' k v w. start_cmd (script [0x80, 0x80]) ahci_map 0x100 scene = Some s' \<and>
      0 < k \<and>
      bus s' =
        bus scene @
        map (\<lambda>n. Load32 (0x100 + cmd_off ahci_map) (cmd_at (script [0x80, 0x80]) ahci_map 0x100 scene n))
          [0..<Suc k] @
        [Load32 (0x100 + cmd_off ahci_map) v, Store32 (0x100 + cmd_off ahci_map) (v OR push_bit 4 1),
         Load32 (0x100 + cmd_off ahci_map) w, Store32 (0x100 + cmd_off ahci_map) (w OR 1)] \<and>
      \<not> bit (cmd_at (script [0x80, 0x80]) ahci_map 0x100 scene k) 15 \<and>
      v = cmd_at (script [0x80, 0x80]) ahci_map 0x100 scene (Suc k))"
proof -
  let ?D = "script [0x80, 0x80]"
  have busy0: "bit (cmd_at ?D ahci_map 0x100 scene 0) 15"
    by (simp add: waiting_polls)
  have idle2: "\<not> bit (cmd_at ?D ahci_map 0x100 scene 2) 15"
    by (simp add: waiting_polls)
  note inst = start_cmd_waits_for_idle [of ?D ahci_map "0x100" scene]
  from idle2 have "\<not> (\<forall>n. bit (cmd_at ?D ahci_map 0x100 scene n) 15)"
    by (intro notI) (drule spec [of _ 2], simp)
  with inst [THEN conjunct2] have "start_cmd ?D ahci_map 0x100 scene \<noteq> None"
    by simp
  then obtain s' where some: "start_cmd ?D ahci_map 0x100 scene = Some s'"
    by (cases "start_cmd ?D ahci_map 0x100 scene") simp_all
  from inst [THEN conjunct1, rule_format, OF some] obtain k v w where
    b: "bus s' =
        bus scene @
        map (\<lambda>n. Load32 (0x100 + cmd_off ahci_map) (cmd_at ?D ahci_map 0x100 scene n)) [0..<Suc k] @
        [Load32 (0x100 + cmd_off ahci_map) v, Store32 (0x100 + cmd_off ahci_map) (v OR push_bit 4 1),
         Load32 (0x100 + cmd_off ahci_map) w, Store32 (0x100 + cmd_off ahci_map) (w OR 1)]"
    and k: "\<not> bit (cmd_at ?D ahci_map 0x100 scene k) 15"
    and v: "v = cmd_at ?D ahci_map 0x100 scene (Suc k)"
    by (elim exE conjE)
  from k busy0 have "0 < k"
    by (cases k) simp_all
  with some busy0 b k v show ?thesis
    by (intro conjI exI [of _ s'] exI [of _ k] exI [of _ v] exI [of _ w])
qed


subsection \<open>port_rebase\<close>

lemma mem_st32 [simp]: "mem (st32 a v s) = write32 (mem s) a v"
  and bus_st32 [simp]: "bus (st32 a v s) = bus s @ [Store32 a v]"
  and console_st32 [simp]: "console (st32 a v s) = console s"
  by (simp_all add: st32_def)

lemma mem_st16 [simp]: "mem (st16 a v s) = write16 (mem s) a v"
  and bus_st16 [simp]: "bus (st16 a v s) = bus s @ [Store16 a v]"
  and console_st16 [simp]: "console (st16 a v s) = console s"
  by (simp_all add: st16_def)

lemma mem_fill [simp]: "mem (fill a c n s) = memset (mem s) a c n"
  and bus_fill [simp]: "bus (fill a c n s) = bus s @ [Fill a c n]"
  and console_fill [simp]: "console (fill a c n s) = console s"
  by (simp_all add: fill_def)

lemma write32_frame: "4 \<le> unat (x - a) \<Longrightarrow> write32 m a v x = m x"
  by (auto simp add: write32_def)

lemma write16_frame: "2 \<le> unat (x - a) \<Longrightarrow> write16 m a v x = m x"
  by (auto simp add: write16_def)

lemma memset_frame: "unat n \<le> unat (x - a) \<Longrightarrow> memset m a c n x = m x"
  by (simp add: memset_def word_less_nat_alt)

lemma far_from:
  fixes x h k :: addr
  assumes "unat k + n \<le> unat (x - h)"
  shows "n \<le> unat (x - (h + k))"
proof -
  have "k \<le> x - h"
    using assms by (simp add: word_le_nat_alt)
  then have "unat (x - h - k) = unat (x - h) - unat k"
    by (rule unat_sub)
  moreover have "x - (h + k) = x - h - k"
    by (simp add: diff_diff_eq)
  ultimately have "unat (x - (h + k)) = unat (x - h) - unat k"
    by (simp only:)
  then show ?thesis
    using assms by linarith
qed

lemma slot_offset:
  fixes i :: "8 word"
  assumes "i < 32" and "c < 32"
  shows "unat (0x20 * (ucast i :: addr) + of_nat c) = 32 * unat i + c"
proof -
  have i: "unat i < 32"
    using assms(1) by (simp add: word_less_nat_alt)
  have u: "unat (ucast i :: addr) = unat i"
    using i by (simp add: unsigned_ucast_eq take_bit_nat_eq_self_iff)
  have "unat (0x20 * (ucast i :: addr) + of_nat c) = (32 * unat i + c) mod 2 ^ 64"
    using assms(2) by (simp add: unat_word_ariths u unat_of_nat mod_simps)
  also have "\<dots> = 32 * unat i + c"
    using i assms(2) by simp
  finally show ?thesis .
qed


lemma headers_frame:
  "1256 \<le> unat (x - h) \<Longrightarrow> mem (rebase_headers ahci_map h i s) x = mem s x"
proof (induction ahci_map h i s rule: rebase_headers.induct)
  case (1 h i s)
  show ?case
  proof (cases "i < 32")
    case True
    then have i: "unat i < 32"
      by (simp add: word_less_nat_alt)
    have o2: "unat (0x20 * (ucast i :: addr) + 2) = 32 * unat i + 2"
      and o8: "unat (0x20 * (ucast i :: addr) + 8) = 32 * unat i + 8"
      and o12: "unat (0x20 * (ucast i :: addr) + 12) = 32 * unat i + 12"
      using slot_offset [OF True, of 2] slot_offset [OF True, of 8] slot_offset [OF True, of 12]
      by simp_all
    have f2: "2 \<le> unat (x - (h + (0x20 * ucast i + 2)))"
      by (rule far_from) (use 1(2) i o2 in simp)
    have f8: "256 \<le> unat (x - (h + (0x20 * ucast i + 8)))"
      by (rule far_from) (use 1(2) i o8 in simp)
    have f12: "4 \<le> unat (x - (h + (0x20 * ucast i + 12)))"
      by (rule far_from) (use 1(2) i o12 in simp)
    from f8 have f8': "4 \<le> unat (x - (h + (0x20 * ucast i + 8)))"
      by simp
    show ?thesis
      using True 1(1) [OF True refl refl refl refl refl 1(2)] f2 f8 f8' f12
      by (subst rebase_headers.simps)
        (simp add: Let_def ahci_map_def write32_frame write16_frame memset_frame add.assoc)
  next
    case False
    then show ?thesis
      by (subst rebase_headers.simps) simp
  qed
qed

lemma ld_cmd_id [simp]:
  "fst (ld_cmd id L port s) = read32 (mem s) (port + cmd_off L)"
  "mem (snd (ld_cmd id L port s)) = mem s"
  by (simp_all add: ld_cmd_def)

lemma stop_wait_id:
  assumes "read32 (mem s) (port + cmd_off L) = 0"
  shows "stop_wait id L port s = Some (snd (ld_cmd id L port (snd (ld_cmd id L port s))))"
  using assms by (subst stop_wait.simps) (simp add: split_beta)

lemma start_wait_id:
  assumes "read32 (mem s) (port + cmd_off L) = 0"
  shows "start_wait id L port s = Some (snd (ld_cmd id L port s))"
  using assms by (subst start_wait.simps) (simp add: split_beta)

lemma rebase_loop_zero: "pi = 0 \<Longrightarrow> rebase_loop dev L hba i pi s = Some s"
proof (induction dev L hba i pi s rule: rebase_loop.induct)
  case (1 dev L hba i pi s)
  then show ?case
    by (subst rebase_loop.simps) simp
qed

lemma rebase_first_only:
  "rebase_loop dev L hba 0 1 s = rebase_port dev L hba 0 s"
proof -
  have "rebase_loop dev L hba (0 + 1) (drop_bit 1 1) = Some"
    by (rule ext) (simp add: rebase_loop_zero)
  then show ?thesis
    by (subst rebase_loop.simps) simp
qed

lemma stop_clear_id_mem:
  "mem (stop_clear id L port s) =
     write32 (write32 (mem s) (port + cmd_off L) (read32 (mem s) (port + cmd_off L) AND NOT 1))
       (port + cmd_off L)
       (read32 (write32 (mem s) (port + cmd_off L) (read32 (mem s) (port + cmd_off L) AND NOT 1))
          (port + cmd_off L) AND NOT (push_bit 4 1))"
  by (simp add: stop_clear_def Let_def split_beta)

lemma start_set_id_mem:
  "mem (start_set id L port s) =
     write32 (write32 (mem s) (port + cmd_off L) (read32 (mem s) (port + cmd_off L) OR push_bit 4 1))
       (port + cmd_off L)
       (read32 (write32 (mem s) (port + cmd_off L) (read32 (mem s) (port + cmd_off L) OR push_bit 4 1))
          (port + cmd_off L) OR 1)"
  by (simp add: start_set_def Let_def split_beta)

lemma rebase_run:
  "\<exists>s'. port_rebase id ahci_map 0xFEBF0000 rebase_in = Some s' \<and>
     mem s' 0x400000 = 0xFF \<and> mem s' 0x400002 = 0 \<and> mem s' 0x400003 = 0 \<and>
     read32 (mem s') 0xFEBF0100 = 0 \<and> read32 (mem s') 0xFEBF0108 = 0 \<and>
     read32 (mem s') 0xFEBF01A4 = 0"
proof -
  let ?P = "0xFEBF0100 :: addr"
  define s0 where "s0 = snd (ld32 0xFEBF000C rebase_in)"
  define sc where "sc = stop_clear id ahci_map ?P s0"
  define s1 where "s1 = snd (ld_cmd id ahci_map ?P (snd (ld_cmd id ahci_map ?P sc)))"
  define s7 where "s7 =
    fill (?P + fb_off ahci_map) 0 256
      (st32 (?P + fbu_off ahci_map) 0
        (st32 (?P + fb_off ahci_map) (fb_value 0)
          (fill (?P + clb_off ahci_map) 0 1024
            (st32 (?P + clbu_off ahci_map) 0
              (st32 (?P + clb_off ahci_map) (clb_value 0) s1)))))"
  define s9 where "s9 = rebase_headers ahci_map 0 0 (snd (ld32 (?P + clb_off ahci_map) s7))"
  define s' where "s' = start_set id ahci_map ?P (snd (ld_cmd id ahci_map ?P s9))"
  have off: "?P + cmd_off ahci_map = 0xFEBF0118"
    by (simp add: ahci_map_def)
  have p: "port_ptr ahci_map 0xFEBF0000 0 = ?P"
    by (simp add: port_ptr_def ahci_map_def)
  have pi: "read32 (mem rebase_in) 0xFEBF000C = 1"
    by (simp add: rebase_in_def read32_def)
  have run0: "port_rebase id ahci_map 0xFEBF0000 rebase_in = rebase_port id ahci_map 0xFEBF0000 0 s0"
    by (simp add: port_rebase_def split_beta ahci_map_def [THEN arg_cong, of pi_off] pi
        rebase_first_only s0_def)
  have m0: "mem s0 = mem rebase_in"
    by (simp add: s0_def)
  have mc: "mem sc = mem rebase_in"
    unfolding sc_def stop_clear_id_mem off m0
    by (rule ext) (simp add: rebase_in_def read32_def write32_def)
  have stop: "stop_cmd id ahci_map ?P s0 = Some s1"
    unfolding stop_cmd_def sc_def [symmetric] s1_def
    by (rule stop_wait_id) (simp add: off mc rebase_in_def read32_def)
  have m1: "mem s1 = mem rebase_in"
    by (simp add: s1_def mc)
  have m7: "mem s7 x = (if unat (x - 0xFEBF0100) < 1024 then 0 else mem rebase_in x)" for x
    unfolding s7_def
    by (simp add: m1 memset_def write32_def ahci_map_def word_less_nat_alt) unat_arith
  have clb: "ucast (fst (ld32 (?P + clb_off ahci_map) s7)) = (0 :: addr)"
    by (simp add: read32_def m7 ahci_map_def [THEN arg_cong, of clb_off])
  have run1: "rebase_port id ahci_map 0xFEBF0000 0 s0 = start_cmd id ahci_map ?P s9"
    unfolding rebase_port_def p stop Let_def split_beta option.case s7_def [symmetric] clb s9_def
    by (rule refl)
  have m9: "mem s9 x = mem s7 x" if "1256 \<le> unat x" for x
    unfolding s9_def using that by (simp add: headers_frame)
  have cmd9: "read32 (mem s9) (?P + cmd_off ahci_map) = 0"
    unfolding off by (simp add: read32_def m9 m7)
  have run2: "start_cmd id ahci_map ?P s9 = Some s'"
    unfolding start_cmd_def s'_def by (simp add: start_wait_id [OF cmd9])
  have m': "mem s' x = mem s9 x" if "4 \<le> unat (x - 0xFEBF0118)" for x
    unfolding s'_def start_set_id_mem off using that by (simp add: write32_frame)
  have "mem s' 0x400000 = 0xFF" "mem s' 0x400002 = 0" "mem s' 0x400003 = 0"
    by (simp_all add: m' m9 m7 rebase_in_def)
  moreover have "read32 (mem s') 0xFEBF0100 = 0" "read32 (mem s') 0xFEBF0108 = 0"
    "read32 (mem s') 0xFEBF01A4 = 0"
    by (simp_all add: read32_def m' m9 m7)
  ultimately show ?thesis
    using run0 run1 run2 by simp
qed

lemma rebase_headers_bus:
  assumes "k \<le> 32"
  shows "bus (rebase_headers L h (of_nat k) s) = bus s @ concat (map (slot_events L h) [k..<32])"
  using assms
proof (induction k arbitrary: s rule: inc_induct)
  case base
  show ?case
    by (subst rebase_headers.simps) simp
next
  case (step n)
  from step.hyps have lt: "(of_nat n :: 8 word) < 32"
    by (simp add: word_less_nat_alt unat_of_nat)
  from step.hyps have uc: "(ucast (of_nat n :: 8 word) :: addr) = of_nat n"
    by (simp add: unsigned_of_nat take_bit_nat_eq_self)
  have nx: "(of_nat n :: 8 word) + 1 = of_nat (Suc n)"
    by simp
  show ?case
    using step.hyps
    by (subst rebase_headers.simps)
      (simp only: lt if_True Let_def nx step.IH uc, simp add: upt_conv_Cons slot_events_def [abs_def])
qed

lemma stop_wait_bus:
  assumes "stop_wait dev L port s = Some s'"
  shows "\<exists>evs. bus s' = bus s @ evs"
proof (rule stop_wait.raw_induct
    [where P = "\<lambda>dev L port s s'. \<exists>evs. bus s' = bus s @ evs", OF _ assms])
  fix f :: "(memory \<Rightarrow> memory) \<Rightarrow> layout \<Rightarrow> addr \<Rightarrow> machine \<Rightarrow> machine option"
    and dev L port s s'
  assume IH: "\<And>dev L port s s'. f dev L port s = Some s' \<Longrightarrow> \<exists>evs. bus s' = bus s @ evs"
    and eq: "(case ld_cmd dev L port s of
                (v, s1) \<Rightarrow>
                  if v AND push_bit 14 1 \<noteq> 0 then f dev L port s1
                  else (case ld_cmd dev L port s1 of
                          (w, s2) \<Rightarrow>
                            if w AND push_bit 15 1 \<noteq> 0 then f dev L port s2
                            else Some s2)) = Some s'"
  let ?s1 = "snd (ld_cmd dev L port s)"
  let ?s2 = "snd (ld_cmd dev L port ?s1)"
  have "f dev L port ?s1 = Some s' \<or> f dev L port ?s2 = Some s' \<or> s' = ?s2"
  proof (cases "bit (cmd_at dev L port s 0) 14")
    case True
    with eq show ?thesis
      by (simp add: split_beta test_bits ld_cmd_simps)
  next
    case fr: False
    show ?thesis
    proof (cases "bit (cmd_at dev L port ?s1 0) 15")
      case True
      with fr eq show ?thesis
        by (simp add: split_beta test_bits ld_cmd_simps)
    next
      case False
      with fr eq show ?thesis
        by (simp add: split_beta test_bits ld_cmd_simps)
    qed
  qed
  then consider "f dev L port ?s1 = Some s'" | "f dev L port ?s2 = Some s'" | "s' = ?s2"
    by (elim disjE)
  then show "\<exists>evs. bus s' = bus s @ evs"
  proof cases
    case 1
    from IH [OF this] obtain evs where "bus s' = bus ?s1 @ evs" ..
    then have "bus s' = bus s @ Load32 (port + cmd_off L) (cmd_at dev L port s 0) # evs"
      by (simp add: ld_cmd_simps)
    then show ?thesis ..
  next
    case 2
    from IH [OF this] obtain evs where "bus s' = bus ?s2 @ evs" ..
    then have "bus s' = bus s @ Load32 (port + cmd_off L) (cmd_at dev L port s 0) #
        Load32 (port + cmd_off L) (cmd_at dev L port ?s1 0) # evs"
      by (simp add: ld_cmd_simps)
    then show ?thesis ..
  next
    case 3
    then have "bus s' = bus s @ [Load32 (port + cmd_off L) (cmd_at dev L port s 0),
        Load32 (port + cmd_off L) (cmd_at dev L port ?s1 0)]"
      by (simp add: ld_cmd_simps)
    then show ?thesis ..
  qed
qed

lemma stop_cmd_bus:
  assumes "stop_cmd dev L port s = Some s'"
  shows "\<exists>evs. bus s' = bus s @ evs"
proof -
  from assms obtain evs where "bus s' = bus (stop_clear dev L port s) @ evs"
    unfolding stop_cmd_def by (blast dest: stop_wait_bus)
  moreover have "\<exists>evs. bus (stop_clear dev L port s) = bus s @ evs"
    by (simp add: stop_clear_def Let_def split_beta ld_cmd_simps)
  ultimately show ?thesis
    by auto
qed

lemma start_cmd_bus:
  assumes "start_cmd dev L port s = Some s'"
  shows "\<exists>evs. bus s' = bus s @ evs"
proof -
  from assms obtain s0 where s0: "start_wait dev L port s = Some s0" and s': "s' = start_set dev L port s0"
    by (auto simp add: start_cmd_def)
  from start_wait_shape [OF s0] obtain k where
    "bus s0 = bus s @ map (\<lambda>n. Load32 (port + cmd_off L) (cmd_at dev L port s n)) [0..<Suc k]"
    by (elim exE conjE)
  moreover from start_set_bus [of dev L port s0] obtain w where
    "bus s' = bus s0 @ [Load32 (port + cmd_off L) (cmd_at dev L port s0 0),
              Store32 (port + cmd_off L) (cmd_at dev L port s0 0 OR push_bit 4 1),
              Load32 (port + cmd_off L) w, Store32 (port + cmd_off L) (w OR 1)]"
    unfolding s' by (elim exE)
  ultimately have "bus s' = bus s @
      (map (\<lambda>n. Load32 (port + cmd_off L) (cmd_at dev L port s n)) [0..<Suc k] @
       [Load32 (port + cmd_off L) (cmd_at dev L port s0 0),
        Store32 (port + cmd_off L) (cmd_at dev L port s0 0 OR push_bit 4 1),
        Load32 (port + cmd_off L) w, Store32 (port + cmd_off L) (w OR 1)])"
    by (simp only: append_assoc)
  then show ?thesis ..
qed

lemma rebase_port_bus:
  assumes "rebase_port dev L hba i s = Some s'"
  shows "\<exists>pre v post. bus s' =
     bus s @ pre @
     [Store32 (port_ptr L hba i + clb_off L) (clb_value i),
      Store32 (port_ptr L hba i + clbu_off L) 0,
      Fill (port_ptr L hba i + clb_off L) 0 1024,
      Store32 (port_ptr L hba i + fb_off L) (fb_value i),
      Store32 (port_ptr L hba i + fbu_off L) 0,
      Fill (port_ptr L hba i + fb_off L) 0 256,
      Load32 (port_ptr L hba i + clb_off L) v] @
     concat (map (slot_events L (ucast v)) [0..<32]) @ post"
proof -
  let ?P = "port_ptr L hba i"
  from assms obtain s1 where stop: "stop_cmd dev L ?P s = Some s1"
    by (cases "stop_cmd dev L ?P s") (simp_all add: rebase_port_def Let_def)
  define s7 where "s7 =
    fill (?P + fb_off L) 0 256
      (st32 (?P + fbu_off L) 0
        (st32 (?P + fb_off L) (fb_value i)
          (fill (?P + clb_off L) 0 1024
            (st32 (?P + clbu_off L) 0
              (st32 (?P + clb_off L) (clb_value i) s1)))))"
  define v where "v = read32 (mem s7) (?P + clb_off L)"
  define s9 where "s9 = rebase_headers L (ucast v) 0 (snd (ld32 (?P + clb_off L) s7))"
  from assms have start: "start_cmd dev L ?P s9 = Some s'"
    unfolding rebase_port_def Let_def stop option.case split_beta s7_def [symmetric] ld32_simps
      v_def [symmetric] s9_def [symmetric] .
  from stop_cmd_bus [OF stop] obtain pre where pre: "bus s1 = bus s @ pre" ..
  from start_cmd_bus [OF start] obtain post where post: "bus s' = bus s9 @ post" ..
  have "bus s9 = bus s @ pre @
     [Store32 (?P + clb_off L) (clb_value i), Store32 (?P + clbu_off L) 0,
      Fill (?P + clb_off L) 0 1024, Store32 (?P + fb_off L) (fb_value i),
      Store32 (?P + fbu_off L) 0, Fill (?P + fb_off L) 0 256,
      Load32 (?P + clb_off L) v] @
     concat (map (slot_events L (ucast v)) [0..<32])"
    unfolding s9_def using rebase_headers_bus [of 0 L "ucast v"]
    by (simp add: s7_def pre v_def)
  with post show ?thesis
    by (intro exI [of _ pre] exI [of _ v] exI [of _ post]) simp
qed

text \<open>
  Claim C1 (fails on the code). For every port \<open>i\<close>, a pass of the loop body that returns
  stores \<open>clb_value i\<close> and \<open>fb_value i\<close> into the port's base registers and then runs the
  32 slot passes, which store \<open>ctba_value j\<close> for slot \<open>j\<close>: the port index does not enter
  the command table base. For slot 0 it is 0x40A000 for every port, so the command table
  ranges computed for two distinct ports coincide instead of being disjoint.
\<close>

theorem command_tables_ignore_port:
  "(\<forall>s'. rebase_port dev L hba i s = Some s' \<longrightarrow>
      (\<exists>pre v post. bus s' =
         bus s @ pre @
         [Store32 (port_ptr L hba i + clb_off L) (clb_value i),
          Store32 (port_ptr L hba i + clbu_off L) 0,
          Fill (port_ptr L hba i + clb_off L) 0 1024,
          Store32 (port_ptr L hba i + fb_off L) (fb_value i),
          Store32 (port_ptr L hba i + fbu_off L) 0,
          Fill (port_ptr L hba i + fb_off L) 0 256,
          Load32 (port_ptr L hba i + clb_off L) v] @
         concat (map (slot_events L (ucast v)) [0..<32]) @ post)) \<and>
   ctba_value 0 = 0x40A000"
  using rebase_port_bus [of dev L hba i s]
  by (simp add: ctba_value_def AHCI_BASE_def)

lemma rebase_in_first:
  "port_rebase id ahci_map 0xFEBF0000 rebase_in =
     rebase_port id ahci_map 0xFEBF0000 0 (snd (ld32 0xFEBF000C rebase_in))"
proof -
  have "read32 (mem rebase_in) 0xFEBF000C = 1"
    by (simp add: rebase_in_def read32_def)
  then show ?thesis
    by (simp add: port_rebase_def split_beta ahci_map_def [THEN arg_cong, of pi_off]
        rebase_first_only)
qed

text \<open>
  The pass for port 0 on the machine \<open>rebase_in\<close> returns, and its accesses have the
  stated form.
\<close>

theorem command_tables_ignore_port_witness:
  "\<exists>s' pre v post.
     rebase_port id ahci_map 0xFEBF0000 0 (snd (ld32 0xFEBF000C rebase_in)) = Some s' \<and>
     bus s' =
       bus (snd (ld32 0xFEBF000C rebase_in)) @ pre @
       [Store32 (port_ptr ahci_map 0xFEBF0000 0 + clb_off ahci_map) (clb_value 0),
        Store32 (port_ptr ahci_map 0xFEBF0000 0 + clbu_off ahci_map) 0,
        Fill (port_ptr ahci_map 0xFEBF0000 0 + clb_off ahci_map) 0 1024,
        Store32 (port_ptr ahci_map 0xFEBF0000 0 + fb_off ahci_map) (fb_value 0),
        Store32 (port_ptr ahci_map 0xFEBF0000 0 + fbu_off ahci_map) 0,
        Fill (port_ptr ahci_map 0xFEBF0000 0 + fb_off ahci_map) 0 256,
        Load32 (port_ptr ahci_map 0xFEBF0000 0 + clb_off ahci_map) v] @
       concat (map (slot_events ahci_map (ucast v)) [0..<32]) @ post"
proof -
  from rebase_run obtain s' where "port_rebase id ahci_map 0xFEBF0000 rebase_in = Some s'"
    by (elim exE conjE)
  then have some: "rebase_port id ahci_map 0xFEBF0000 0 (snd (ld32 0xFEBF000C rebase_in)) = Some s'"
    by (simp only: rebase_in_first)
  from command_tables_ignore_port [THEN conjunct1, rule_format, OF some]
  obtain pre v post where
    "bus s' =
       bus (snd (ld32 0xFEBF000C rebase_in)) @ pre @
       [Store32 (port_ptr ahci_map 0xFEBF0000 0 + clb_off ahci_map) (clb_value 0),
        Store32 (port_ptr ahci_map 0xFEBF0000 0 + clbu_off ahci_map) 0,
        Fill (port_ptr ahci_map 0xFEBF0000 0 + clb_off ahci_map) 0 1024,
        Store32 (port_ptr ahci_map 0xFEBF0000 0 + fb_off ahci_map) (fb_value 0),
        Store32 (port_ptr ahci_map 0xFEBF0000 0 + fbu_off ahci_map) 0,
        Fill (port_ptr ahci_map 0xFEBF0000 0 + fb_off ahci_map) 0 256,
        Load32 (port_ptr ahci_map 0xFEBF0000 0 + clb_off ahci_map) v] @
       concat (map (slot_events ahci_map (ucast v)) [0..<32]) @ post"
    by (elim exE)
  with some show ?thesis
    by (intro exI [of _ s'] exI [of _ pre] exI [of _ v] exI [of _ post] conjI)
qed

lemma values0: "clb_value 0 = 0x400000" "fb_value 0 = 0x408000"
  by (simp_all add: clb_value_def fb_value_def AHCI_BASE_def)

text \<open>
  Claim C2 (fails on the code). On the machine \<open>rebase_in\<close> port 0 is implemented and
  \<^verbatim>\<open>port_rebase\<close> returns, but the first byte of port 0's command list region still
  reads 0xFF, and the length field of the first command header in that region reads 0,
  not 8: the fills start at the address of the register, not at the address it holds,
  and the headers are written where the cleared register points, at address 0.
\<close>

theorem port_rebase_leaves_command_list:
  "bit (read32 (mem rebase_in) (0xFEBF0000 + pi_off ahci_map)) 0 \<and>
   (\<exists>s'. port_rebase id ahci_map 0xFEBF0000 rebase_in = Some s' \<and>
      mem s' (ucast (clb_value 0)) = 0xFF \<and>
      mem s' (ucast (clb_value 0) + prdtl_off ahci_map) = 0 \<and>
      mem s' (ucast (clb_value 0) + prdtl_off ahci_map + 1) = 0)"
proof -
  have "read32 (mem rebase_in) (0xFEBF0000 + pi_off ahci_map) = 1"
    by (simp add: rebase_in_def read32_def ahci_map_def)
  then show ?thesis
    using rebase_run by (auto simp add: values0 ahci_map_def)
qed

text \<open>
  Claim C3 (fails on the code). On the same machine, after \<^verbatim>\<open>port_rebase\<close> the command
  list base register and the FIS base register of port 0 both read 0, not 0x400000 and
  0x408000: each is overwritten by the fill that follows its assignment.
\<close>

theorem port_rebase_clears_base_registers:
  "bit (read32 (mem rebase_in) (0xFEBF0000 + pi_off ahci_map)) 0 \<and>
   clb_value 0 = 0x400000 \<and> fb_value 0 = 0x408000 \<and>
   (\<exists>s'. port_rebase id ahci_map 0xFEBF0000 rebase_in = Some s' \<and>
      read32 (mem s') (port_ptr ahci_map 0xFEBF0000 0 + clb_off ahci_map) = 0 \<and>
      read32 (mem s') (port_ptr ahci_map 0xFEBF0000 0 + fb_off ahci_map) = 0)"
proof -
  have "read32 (mem rebase_in) (0xFEBF0000 + pi_off ahci_map) = 1"
    by (simp add: rebase_in_def read32_def ahci_map_def)
  then show ?thesis
    using rebase_run by (auto simp add: values0 ahci_map_def port_ptr_def)
qed

text \<open>
  Claim C10 (fails on the code). On the same machine port 1 is not implemented, yet
  its signature register, which held the SATA signature, reads 0 after \<^verbatim>\<open>port_rebase\<close>:
  the 1 KiB fill issued for port 0 starts at port 0's first register and runs over the
  register blocks of ports 1 to 7.
\<close>

theorem port_rebase_clobbers_next_port:
  "\<not> bit (read32 (mem rebase_in) (0xFEBF0000 + pi_off ahci_map)) 1 \<and>
   read32 (mem rebase_in) (port_ptr ahci_map 0xFEBF0000 1 + sig_off ahci_map) = SATA_SIG_ATA \<and>
   (\<exists>s'. port_rebase id ahci_map 0xFEBF0000 rebase_in = Some s' \<and>
      read32 (mem s') (port_ptr ahci_map 0xFEBF0000 1 + sig_off ahci_map) = 0)"
proof -
  have "read32 (mem rebase_in) (0xFEBF0000 + pi_off ahci_map) = 1"
    by (simp add: rebase_in_def read32_def ahci_map_def)
  moreover have "read32 (mem rebase_in) (port_ptr ahci_map 0xFEBF0000 1 + sig_off ahci_map) = SATA_SIG_ATA"
    by (simp add: rebase_in_def read32_def ahci_map_def port_ptr_def SATA_SIG_ATA_def)
  ultimately show ?thesis
    using rebase_run by (auto simp add: ahci_map_def port_ptr_def)
qed

end
